theory Spec2Isabelle
  imports Complex_Main
begin

text \<open>
  A model of \<open>main.py\<close>, the Avito position tracker: the keyword matcher, the loading of the
  configuration, the parsing of the input URL, the extraction of the listing, the sink that
  writes the results, and the loop of \<open>run\<close> over the cities with its retries, its
  pauses and its ways to end. The browser, the clock and the interrupt signal are inputs of
  the model; what \<open>run\<close> calls is recorded as a sequence of events.
\<close>

section \<open>Strings\<close>

text \<open>
  A Python or JavaScript string is modelled as a \<^typ>\<open>string\<close>; a character outside
  ASCII stands as its UTF-8 bytes. Substring search and splitting at an ASCII delimiter give
  the same answers on the bytes as on the code points. The case mapping \<open>str.lower\<close> is a
  built-in of the language and is passed to the functions that call it as the parameter
  \<open>lower\<close>; \<open>ascii_lower\<close> below agrees with it on ASCII text.
\<close>

definition ascii_lower_char :: "char \<Rightarrow> char" where
  "ascii_lower_char c =
     (let n = (of_char c :: nat) in if 65 \<le> n \<and> n \<le> 90 then char_of (n + 32) else c)"

definition ascii_lower :: "string \<Rightarrow> string" where
  "ascii_lower s = map ascii_lower_char s"

text \<open>\<open>s.startswith(p)\<close>\<close>

fun startswith :: "string \<Rightarrow> string \<Rightarrow> bool" where
  "startswith s [] = True"
| "startswith [] (c # p) = False"
| "startswith (a # s) (c # p) = (a = c \<and> startswith s p)"

text \<open>\<open>w in s\<close> on strings: \<open>w\<close> occurs in \<open>s\<close> as a contiguous substring.\<close>

fun str_in :: "string \<Rightarrow> string \<Rightarrow> bool" where
  "str_in w [] = (w = [])"
| "str_in w (c # s) = (startswith (c # s) w \<or> str_in w s)"

definition is_ascii :: "char \<Rightarrow> bool" where
  "is_ascii c = ((of_char c :: nat) < 128)"

definition is_ascii_alpha :: "char \<Rightarrow> bool" where
  "is_ascii_alpha c =
     (let n = (of_char c :: nat) in (65 \<le> n \<and> n \<le> 90) \<or> (97 \<le> n \<and> n \<le> 122))"










section \<open>Keyword matcher\<close>

text \<open>
  \<^verbatim>\<open>
  def is_mine(title, keyword_groups):
      title_lower = title.lower()
      return any(all(word.lower() in title_lower for word in group)
                 for group in keyword_groups)
  \<close>
\<close>

definition is_mine :: "(string \<Rightarrow> string) \<Rightarrow> string \<Rightarrow> string list list \<Rightarrow> bool" where
  "is_mine lower title keyword_groups =
     (let title_lower = lower title
      in list_ex (\<lambda>group. list_all (\<lambda>word. str_in (lower word) title_lower) group)
           keyword_groups)"

section \<open>Configuration\<close>

text \<open>The values \<open>json.load\<close> returns. An object is a dict: its keys in insertion order.\<close>

datatype json =
    JNull
  | JBool bool
  | JInt int
  | JFloat real
  | JStr string
  | JArr "json list"
  | JObj "(string \<times> json) list"

datatype py_error =
    ValueError string
  | AttributeError string
  | ZeroDivisionError
  | RuntimeError string
  | IndexError string
  | BrowserError string

type_synonym pydict = "(string \<times> json) list"

text \<open>\<open>d.setdefault(k, v)\<close>: the dict is changed only when \<open>k\<close> is not a key of it.\<close>

definition setdefault :: "string \<Rightarrow> json \<Rightarrow> pydict \<Rightarrow> pydict" where
  "setdefault k v d = (case map_of d k of Some _ \<Rightarrow> d | None \<Rightarrow> d @ [(k, v)])"

definition defaults :: pydict where
  "defaults =
     [(''headless'', JBool True),
      (''min_delay'', JInt 3),
      (''max_delay'', JInt 12),
      (''long_pause_every'', JInt 25),
      (''long_pause_min'', JInt 15),
      (''long_pause_max'', JInt 30),
      (''page_timeout'', JInt 30000),
      (''selector_timeout'', JInt 10000),
      (''max_retries'', JInt 2)]"

text \<open>
  \<open>load_config\<close> reads the file when it exists (\<open>None\<close>: no file, the config starts as the
  empty dict). A file whose top-level value is not an object has no \<open>setdefault\<close>: the first
  call raises.
\<close>

definition load_config :: "json option \<Rightarrow> py_error + pydict" where
  "load_config file =
     (case (case file of None \<Rightarrow> JObj [] | Some j \<Rightarrow> j) of
        JObj cfg \<Rightarrow> Inr (fold (\<lambda>(k, v). setdefault k v) defaults cfg)
      | _ \<Rightarrow> Inl (AttributeError ''setdefault''))"

section \<open>Input URL\<close>

text \<open>
  \<open>parse_category_path\<close> calls \<open>urlparse\<close>, \<open>parse_qs\<close> and \<open>urlencode\<close> of Python's
  \<open>urllib.parse\<close>. They are modelled after CPython 3.11, on the byte view of strings. Three
  parts of the library stay parameters: the decoding of a string that contains a percent
  sign, and the two deep checks of a host name (a bracketed IPv6 host, NFKC normalisation),
  which answer whether \<open>urlsplit\<close> goes on (\<open>True\<close>) or raises \<open>ValueError\<close>.
\<close>

record urllib =
  percent_decode :: "string \<Rightarrow> string"
  check_bracketed_host :: "string \<Rightarrow> bool"
  check_nfkc :: "string \<Rightarrow> bool"

record parse_result =
  pr_scheme :: string
  pr_netloc :: string
  pr_path :: string
  pr_params :: string
  pr_query :: string
  pr_fragment :: string

definition scheme_chars :: string where
  "scheme_chars =
     ''abcdefghijklmnopqrstuvwxyz'' @ ''ABCDEFGHIJKLMNOPQRSTUVWXYZ'' @ ''0123456789'' @ ''+-.''"

definition uses_params :: "string list" where
  "uses_params =
     ['''', ''ftp'', ''hdl'', ''prospero'', ''http'', ''imap'', ''https'', ''shttp'', ''rtsp'',
      ''rtsps'', ''rtspu'', ''sip'', ''sips'', ''mms'', ''sftp'', ''tel'']"

text \<open>\<open>s.partition(c)\<close> for a one-character separator: the text before its first occurrence,
  whether it occurs, and the text after it.\<close>

definition partition_at :: "char \<Rightarrow> string \<Rightarrow> string \<times> bool \<times> string" where
  "partition_at c s =
     (takeWhile (\<lambda>x. x \<noteq> c) s, c \<in> set s, drop 1 (dropWhile (\<lambda>x. x \<noteq> c) s))"

text \<open>\<open>s.split(c)\<close> for a one-character separator.\<close>

fun split_on :: "char \<Rightarrow> string \<Rightarrow> string list" where
  "split_on c [] = [[]]"
| "split_on c (x # xs) =
     (if x = c then [] # split_on c xs
      else (case split_on c xs of [] \<Rightarrow> [[x]] | w # ws \<Rightarrow> (x # w) # ws))"

text \<open>The scheme is split off when a colon follows a non-empty run of scheme characters that
  starts with an ASCII letter.\<close>

definition split_scheme :: "string \<Rightarrow> string \<times> string" where
  "split_scheme url =
     (case partition_at CHR '':'' url of
        (pre, found, rest) \<Rightarrow>
          (case pre of
             [] \<Rightarrow> ('''', url)
           | c # _ \<Rightarrow>
               if found \<and> is_ascii c \<and> is_ascii_alpha c \<and> list_all (\<lambda>x. x \<in> set scheme_chars) pre
               then (ascii_lower pre, rest)
               else ('''', url)))"

definition splitnetloc :: "string \<Rightarrow> string \<times> string" where
  "splitnetloc url =
     (let is_delim = (\<lambda>c. c = CHR ''/'' \<or> c = CHR ''?'' \<or> c = CHR ''#'');
          u = drop 2 url
      in (takeWhile (\<lambda>c. \<not> is_delim c) u, dropWhile (\<lambda>c. \<not> is_delim c) u))"

definition urlsplit :: "urllib \<Rightarrow> string \<Rightarrow> py_error + (string \<times> string \<times> string \<times> string \<times> string)" where
  "urlsplit lib url0 =
     (let url1 = dropWhile (\<lambda>c. (of_char c :: nat) \<le> 32) url0;
          url2 = filter (\<lambda>c. c \<noteq> CHR 0x09 \<and> c \<noteq> CHR 0x0D \<and> c \<noteq> CHR 0x0A) url1;
          (scheme, url3) = split_scheme url2;
          (netloc, url4) = (if take 2 url3 = ''//'' then splitnetloc url3 else ('''', url3));
          lb = (CHR ''['' \<in> set netloc);
          rb = (CHR '']'' \<in> set netloc)
      in if (lb \<and> \<not> rb) \<or> (rb \<and> \<not> lb) then Inl (ValueError ''Invalid IPv6 URL'')
         else if lb \<and> rb \<and> \<not> check_bracketed_host lib netloc
           then Inl (ValueError ''Invalid IPv6 URL'')
         else
           (let (url5, fragment) =
                  (if CHR ''#'' \<in> set url4
                   then (case partition_at CHR ''#'' url4 of (a, _, b) \<Rightarrow> (a, b))
                   else (url4, ''''));
                (url6, query) =
                  (if CHR ''?'' \<in> set url5
                   then (case partition_at CHR ''?'' url5 of (a, _, b) \<Rightarrow> (a, b))
                   else (url5, ''''))
            in if netloc \<noteq> [] \<and> \<not> list_all is_ascii netloc \<and> \<not> check_nfkc lib netloc
               then Inl (ValueError (''netloc contains invalid characters under NFKC normalization''))
               else Inr (scheme, netloc, url6, query, fragment)))"

definition splitparams :: "string \<Rightarrow> string \<times> string" where
  "splitparams url =
     (if CHR ''/'' \<in> set url
      then (let tail = rev (takeWhile (\<lambda>c. c \<noteq> CHR ''/'') (rev url));
                head = take (length url - length tail) url
            in if CHR '';'' \<notin> set tail then (url, '''')
               else (head @ takeWhile (\<lambda>c. c \<noteq> CHR '';'') tail,
                     drop 1 (dropWhile (\<lambda>c. c \<noteq> CHR '';'') tail)))
      else (takeWhile (\<lambda>c. c \<noteq> CHR '';'') url, drop 1 (dropWhile (\<lambda>c. c \<noteq> CHR '';'') url)))"

definition urlparse :: "urllib \<Rightarrow> string \<Rightarrow> py_error + parse_result" where
  "urlparse lib url =
     (case urlsplit lib url of
        Inl e \<Rightarrow> Inl e
      | Inr (scheme, netloc, u, query, fragment) \<Rightarrow>
          (let (u', params) =
                 (if scheme \<in> set uses_params \<and> CHR '';'' \<in> set u then splitparams u else (u, ''''))
           in Inr \<lparr>pr_scheme = scheme, pr_netloc = netloc, pr_path = u', pr_params = params,
                   pr_query = query, pr_fragment = fragment\<rparr>))"

definition unquote :: "urllib \<Rightarrow> string \<Rightarrow> string" where
  "unquote lib s = (if CHR ''%'' \<notin> set s then s else percent_decode lib s)"

definition unquote_plus :: "urllib \<Rightarrow> string \<Rightarrow> string" where
  "unquote_plus lib s = unquote lib (map (\<lambda>c. if c = CHR ''+'' then CHR '' '' else c) s)"

definition parse_qsl :: "urllib \<Rightarrow> string \<Rightarrow> (string \<times> string) list" where
  "parse_qsl lib qs =
     (if qs = [] then []
      else concat (map (\<lambda>name_value.
             if name_value \<noteq> [] then
               (case partition_at CHR ''='' name_value of
                  (name, has_eq, val) \<Rightarrow>
                    if val \<noteq> [] then [(unquote_plus lib name, unquote_plus lib val)] else [])
             else [])
           (split_on CHR ''&'' qs)))"

definition parse_qs :: "urllib \<Rightarrow> string \<Rightarrow> (string \<rightharpoonup> string list)" where
  "parse_qs lib qs =
     (\<lambda>name. case filter (\<lambda>(n, v). n = name) (parse_qsl lib qs) of
                [] \<Rightarrow> None
              | p # ps \<Rightarrow> Some (map snd (p # ps)))"

definition always_safe :: string where
  "always_safe =
     ''ABCDEFGHIJKLMNOPQRSTUVWXYZ'' @ ''abcdefghijklmnopqrstuvwxyz'' @ ''0123456789'' @ ''_.-~''"

definition hexdigit :: "nat \<Rightarrow> char" where
  "hexdigit n = ''0123456789ABCDEF'' ! (n mod 16)"

definition byte_quoter :: "string \<Rightarrow> char \<Rightarrow> string" where
  "byte_quoter safe b =
     (if b \<in> set always_safe \<or> b \<in> set safe then [b]
      else [CHR ''%'', hexdigit ((of_char b :: nat) div 16), hexdigit ((of_char b :: nat) mod 16)])"

definition quote :: "string \<Rightarrow> string \<Rightarrow> string" where
  "quote safe s = concat (map (byte_quoter safe) s)"

definition quote_plus :: "string \<Rightarrow> string" where
  "quote_plus s =
     (if CHR '' '' \<notin> set s then quote '''' s
      else map (\<lambda>c. if c = CHR '' '' then CHR ''+'' else c) (quote '' '' s))"

text \<open>\<open>urlencode({"q": v})\<close>\<close>

definition urlencode_q :: "string \<Rightarrow> string" where
  "urlencode_q v = quote_plus ''q'' @ ''='' @ quote_plus v"

text \<open>
  \<^verbatim>\<open>
  def parse_category_path(url):
      parsed = urlparse(url)
      for prefix in ("https://www.avito.ru/all/", "http://www.avito.ru/all/"):
          if url.startswith(prefix):
              path = parsed.path[len("/all/"):]
              qs = parse_qs(parsed.query)
              if "q" in qs:
                  return (path, urlencode({"q": qs["q"][0]}))
              return (path, None)
      raise ValueError(f"URL must start with https://www.avito.ru/all/  ... got: {url}")
  \<close>
\<close>

definition prefixes :: "string list" where
  "prefixes = [''https://www.avito.ru/all/'', ''http://www.avito.ru/all/'']"

fun try_prefixes :: "urllib \<Rightarrow> parse_result \<Rightarrow> string \<Rightarrow> string list \<Rightarrow> py_error + (string \<times> string option)" where
  "try_prefixes lib parsed url [] =
     Inl (ValueError (''URL must start with https://www.avito.ru/all/  ''
            @ [CHR 0xE2, CHR 0x80, CHR 0x94] @ '' got: '' @ url))"
| "try_prefixes lib parsed url (prefix # ps) =
     (if startswith url prefix then
        (let path = drop (length ''/all/'') (pr_path parsed);
             qs = parse_qs lib (pr_query parsed)
         in case qs ''q'' of
              Some vs \<Rightarrow>
                (case vs of
                   v # _ \<Rightarrow> Inr (path, Some (urlencode_q v))
                 | [] \<Rightarrow> Inl (IndexError ''list index out of range''))
            | None \<Rightarrow> Inr (path, None))
      else try_prefixes lib parsed url ps)"

definition parse_category_path :: "urllib \<Rightarrow> string \<Rightarrow> py_error + (string \<times> string option)" where
  "parse_category_path lib url =
     (case urlparse lib url of
        Inl e \<Rightarrow> Inl e
      | Inr parsed \<Rightarrow> try_prefixes lib parsed url prefixes)"

section \<open>Extractor\<close>

text \<open>
  What the in-page script reads of the document: for each listing item, its title link
  (\<open>a[data-marker="item-title"]\<close>, if any), its rendered text and all its links, in DOM
  order. \<open>String.prototype.trim\<close> and the replacement of the rating pattern
  (\<open>/[\d.,]+\<cdot>.*$/\<close>) are built-ins of the browser and stay parameters.
\<close>

record link =
  href :: string
  text_content :: string

record item =
  title_link :: "link option"
  inner_text :: string
  links :: "link list"

record js_builtins =
  trim :: "string \<Rightarrow> string"
  strip_rating :: "string \<Rightarrow> string"

record ad =
  ad_position :: nat
  ad_title :: string
  ad_url :: string
  ad_is_reklama :: bool
  seller_name :: string
  seller_url :: string

definition reklama :: string where
  "reklama = [CHR 0xD0, CHR 0xA0, CHR 0xD0, CHR 0xB5, CHR 0xD0, CHR 0xBA, CHR 0xD0, CHR 0xBB,
              CHR 0xD0, CHR 0xB0, CHR 0xD0, CHR 0xBC, CHR 0xD0, CHR 0xB0]"

text \<open>\<open>s.split('?')[0]\<close>\<close>

definition before_query :: "string \<Rightarrow> string" where
  "before_query s = takeWhile (\<lambda>c. c \<noteq> CHR ''?'') s"

text \<open>The body of the \<open>forEach\<close> callback: one record per item, \<open>index\<close> counted from 0.\<close>

definition extract_item :: "js_builtins \<Rightarrow> nat \<Rightarrow> item \<Rightarrow> ad" where
  "extract_item js index it =
     (let adTitle = (case title_link it of Some l \<Rightarrow> trim js (text_content l) | None \<Rightarrow> '''');
          adUrl = (case title_link it of Some l \<Rightarrow> before_query (href l) | None \<Rightarrow> '''');
          isReklama = str_in reklama (inner_text it);
          seller = find (\<lambda>a. href a \<noteq> [] \<and> str_in ''src=search_seller_info'' (href a)) (links it);
          sellerName = (case seller of
                          Some a \<Rightarrow> trim js (strip_rating js (trim js (text_content a)))
                        | None \<Rightarrow> '''');
          sellerUrl = (case seller of Some a \<Rightarrow> before_query (href a) | None \<Rightarrow> '''')
      in \<lparr>ad_position = index + 1, ad_title = adTitle, ad_url = adUrl,
          ad_is_reklama = isReklama, seller_name = sellerName, seller_url = sellerUrl\<rparr>)"

text \<open>
  \<open>EXTRACT_ADS_JS\<close>: \<open>None\<close> (JavaScript \<open>null\<close>) when the document has no listing
  container, else the records of its items.
\<close>

definition EXTRACT_ADS_JS :: "js_builtins \<Rightarrow> item list option \<Rightarrow> ad list option" where
  "EXTRACT_ADS_JS js container =
     (case container of
        None \<Rightarrow> None
      | Some items \<Rightarrow> Some (map (\<lambda>(index, it). extract_item js index it) (enumerate 0 items)))"

text \<open>
  The page an attempt arrives at: its URL, its title (\<open>None\<close> when \<open>page.title()\<close> raises),
  whether the listing container appears within the selector timeout, and the items of the
  container when the script runs (\<open>None\<close>: no container by then).
\<close>

record page =
  page_url :: string
  page_title :: "string option"
  selector_appears :: bool
  container :: "item list option"

text \<open>
  \<open>extract_ads\<close>: \<open>None\<close> when the wait for the container times out or the script returns
  \<open>null\<close>. The diagnostic copy of the page and the scrolling are not modelled.
\<close>

definition extract_ads :: "js_builtins \<Rightarrow> page \<Rightarrow> ad list option" where
  "extract_ads js pg =
     (if \<not> selector_appears pg then None
      else (case EXTRACT_ADS_JS js (container pg) of None \<Rightarrow> None | Some ads \<Rightarrow> Some ads))"

section \<open>Block detector\<close>

definition url_hints :: "string list" where
  "url_hints = [''captcha'', ''challenge'', ''blocked'', ''showcaptcha'']"

definition title_hints :: "string list" where
  "title_hints =
     [[CHR 0xD0, CHR 0xB4, CHR 0xD0, CHR 0xBE, CHR 0xD1, CHR 0x81, CHR 0xD1, CHR 0x82, CHR 0xD1,
       CHR 0x83, CHR 0xD0, CHR 0xBF] @ '' '' @
      [CHR 0xD0, CHR 0xBE, CHR 0xD0, CHR 0xB3, CHR 0xD1, CHR 0x80, CHR 0xD0, CHR 0xB0, CHR 0xD0,
       CHR 0xBD, CHR 0xD0, CHR 0xB8, CHR 0xD1, CHR 0x87, CHR 0xD0, CHR 0xB5, CHR 0xD0, CHR 0xBD],
      [CHR 0xD0, CHR 0xBF, CHR 0xD1, CHR 0x80, CHR 0xD0, CHR 0xBE, CHR 0xD0, CHR 0xB1, CHR 0xD0,
       CHR 0xBB, CHR 0xD0, CHR 0xB5, CHR 0xD0, CHR 0xBC, CHR 0xD0, CHR 0xB0] @ '' '' @
      [CHR 0xD1, CHR 0x81] @ '' ip'',
      ''captcha'']"

definition looks_like_captcha :: "(string \<Rightarrow> string) \<Rightarrow> page \<Rightarrow> bool" where
  "looks_like_captcha lower pg =
     (let url_lower = lower (page_url pg)
      in if list_ex (\<lambda>h. str_in h url_lower) url_hints then True
         else (case page_title pg of
                 Some title \<Rightarrow> list_ex (\<lambda>h. str_in h (lower title)) title_hints
               | None \<Rightarrow> False))"

section \<open>Persistence sink\<close>

text \<open>A collected record: the extracted fields and the three keys the run stamps on it
  (\<open>city\<close>, \<open>is_mine\<close>, \<open>_run_ts\<close>).\<close>

record ad_record = ad +
  city :: string
  key_is_mine :: bool
  key_run_ts :: string

text \<open>The record as the dict it is in the program, keys in insertion order.\<close>

definition items :: "ad_record \<Rightarrow> pydict" where
  "items r =
     [(''ad_position'', JInt (int (ad_position r))),
      (''ad_title'', JStr (ad_title r)),
      (''ad_url'', JStr (ad_url r)),
      (''ad_is_reklama'', JBool (ad_is_reklama r)),
      (''seller_name'', JStr (seller_name r)),
      (''seller_url'', JStr (seller_url r)),
      (''city'', JStr (city r)),
      (''is_mine'', JBool (key_is_mine r)),
      (''_run_ts'', JStr (key_run_ts r))]"

definition fieldnames :: "string list" where
  "fieldnames =
     [''city'', ''ad_position'', ''ad_title'', ''ad_url'',
      ''ad_is_reklama'', ''is_mine'', ''seller_name'', ''seller_url'']"

text \<open>A row of the \<open>DictWriter\<close>: the values of the field names, other keys ignored.\<close>

definition csv_row :: "ad_record \<Rightarrow> json list" where
  "csv_row r = map (\<lambda>f. case map_of (items r) f of Some v \<Rightarrow> v | None \<Rightarrow> JStr '''') fieldnames"

definition clean :: "ad_record \<Rightarrow> pydict" where
  "clean r = filter (\<lambda>(k, v). \<not> startswith k ''_'') (items r)"

datatype artifact =
    Csv_file "string list" "json list list"
  | Json_file "pydict list"

text \<open>
  \<open>save_results\<close> on the files of the output directory, by name. Both files are opened
  for writing, so what they held is replaced. Nothing is written for an empty list. The
  file operations are taken to succeed.
\<close>

definition save_results :: "ad_record list \<Rightarrow> (string \<rightharpoonup> artifact) \<Rightarrow> (string \<rightharpoonup> artifact)" where
  "save_results results files =
     (case results of
        [] \<Rightarrow> files
      | r0 # _ \<Rightarrow>
          (let ts = key_run_ts r0;
               csv_path = ''results_'' @ ts @ ''.csv'';
               json_path = ''results_'' @ ts @ ''.json''
           in (files(csv_path \<mapsto> Csv_file fieldnames (map csv_row results)))
                (json_path \<mapsto> Json_file (map clean results))))"

section \<open>Scan orchestrator\<close>

record scan_config =
  headless :: bool
  min_delay :: real
  max_delay :: real
  long_pause_every :: int
  long_pause_min :: real
  long_pause_max :: real
  page_timeout :: int
  selector_timeout :: int
  max_retries :: int

record run_args =
  cfg :: scan_config
  category_path :: string
  keyword_rules :: "string list list"
  query :: "string option"

text \<open>
  What the run meets from outside: the built-ins, the clock at the start of the run, whether
  the warm-up navigation raises, what the browser does at attempt \<open>k\<close> (from 0) of target
  \<open>i\<close> (from 1), and whether the first Ctrl+C arrives while target \<open>i\<close> is in progress
  (\<open>i = 0\<close>: before the first target). A second Ctrl+C ends the process from the signal
  handler and is outside this model.
\<close>

datatype visit = Raises string | Arrives page

record world =
  str_lower :: "string \<Rightarrow> string"
  js :: js_builtins
  now :: string
  warm_up_fails :: bool
  visit :: "nat \<Rightarrow> nat \<Rightarrow> visit"
  interrupted :: "nat \<Rightarrow> bool"

text \<open>
  The globals \<open>collected_results\<close> and \<open>shutdown_requested\<close>, the local
  \<open>consecutive_errors\<close> of \<open>run\<close>, and the files of the output directory.
\<close>

record run_state =
  collected_results :: "ad_record list"
  shutdown_requested :: bool
  consecutive_errors :: nat
  output_files :: "string \<rightharpoonup> artifact"

text \<open>
  The calls of \<open>run\<close> that the claims are about, in the order they are made.
  \<open>Sleep_uniform a b\<close> is \<open>asyncio.sleep(random.uniform(a, b))\<close>; \<open>Flush rs\<close> is
  the call \<open>save_results(rs)\<close>.
\<close>

datatype event =
    Launch_browser
  | Warm_cookies
  | Goto string
  | Sleep_uniform real real
  | Flush "ad_record list"
  | Close_browser
  | Print_report "ad_record list"

datatype outcome = Completed | Raised py_error

definition emit :: "event list \<Rightarrow> 'r \<times> event list \<times> run_state \<Rightarrow> 'r \<times> event list \<times> run_state" where
  "emit evs r = (case r of (x, evs', st) \<Rightarrow> (x, evs @ evs', st))"

definition target_url :: "run_args \<Rightarrow> string \<Rightarrow> string" where
  "target_url a c =
     ''https://www.avito.ru/'' @ c @ ''/'' @ category_path a @
       (case query a of Some q \<Rightarrow> (if q \<noteq> [] then ''?'' @ q else '''') | None \<Rightarrow> '''')"

definition stamp :: "world \<Rightarrow> run_args \<Rightarrow> string \<Rightarrow> ad \<Rightarrow> ad_record" where
  "stamp w a c x =
     \<lparr>ad_position = ad_position x, ad_title = ad_title x, ad_url = ad_url x,
      ad_is_reklama = ad_is_reklama x, seller_name = seller_name x, seller_url = seller_url x,
      city = c, key_is_mine = is_mine (str_lower w) (ad_title x) (keyword_rules a), key_run_ts = now w\<rparr>"

text \<open>
  One pass through the \<open>try\<close> block up to the extraction: \<open>Done\<close> with the extracted
  records, \<open>Blocked\<close> when the captcha check fires (the \<open>continue\<close>), \<open>Failed\<close> when an
  exception reaches the \<open>except\<close> clause.
\<close>

datatype attempt_result = Done "ad list" | Blocked | Failed string

definition attempt :: "world \<Rightarrow> nat \<Rightarrow> nat \<Rightarrow> attempt_result" where
  "attempt w i k =
     (case visit w i k of
        Raises msg \<Rightarrow> Failed msg
      | Arrives pg \<Rightarrow>
          if looks_like_captcha (str_lower w) pg then Blocked
          else (case extract_ads (js w) pg of
                  None \<Rightarrow> Failed ''Failed to extract ads''
                | Some ads \<Rightarrow> Done ads))"

text \<open>\<open>for attempt in range(cfg["max_retries"] + 1)\<close>, with \<open>n\<close> passes left and \<open>k\<close> made.\<close>

fun attempt_loop :: "world \<Rightarrow> run_args \<Rightarrow> nat \<Rightarrow> string \<Rightarrow> nat \<Rightarrow> nat \<Rightarrow> run_state \<Rightarrow> bool \<times> event list \<times> run_state" where
  "attempt_loop w a i c 0 k st = (False, [], st)"
| "attempt_loop w a i c (Suc n) k st =
     (case attempt w i k of
        Done ads \<Rightarrow>
          (let results = collected_results st @ map (stamp w a c) ads
           in (True, [Goto (target_url a c), Flush results],
               st\<lparr>collected_results := results,
                  output_files := save_results results (output_files st),
                  consecutive_errors := 0\<rparr>))
      | Blocked \<Rightarrow>
          emit [Goto (target_url a c), Sleep_uniform 60 120] (attempt_loop w a i c n (Suc k) st)
      | Failed msg \<Rightarrow>
          emit [Goto (target_url a c), Sleep_uniform 10 20] (attempt_loop w a i c n (Suc k) st))"

text \<open>The body of the loop over the cities, up to the count of consecutive failures.\<close>

definition process_target :: "world \<Rightarrow> run_args \<Rightarrow> nat \<Rightarrow> string \<Rightarrow> run_state \<Rightarrow> bool \<times> event list \<times> run_state" where
  "process_target w a i c st =
     (case attempt_loop w a i c (nat (max_retries (cfg a) + 1)) 0 st of
        (success, evs, st1) \<Rightarrow>
          (let st2 = st1\<lparr>shutdown_requested := shutdown_requested st1 \<or> interrupted w i\<rparr>
           in (success, evs,
               if success then st2 else st2\<lparr>consecutive_errors := consecutive_errors st2 + 1\<rparr>)))"

text \<open>The delay between cities; \<open>i % cfg["long_pause_every"]\<close> raises for a zero divisor.\<close>

definition delay_between_cities :: "scan_config \<Rightarrow> nat \<Rightarrow> py_error + event" where
  "delay_between_cities c i =
     (if long_pause_every c = 0 then Inl ZeroDivisionError
      else if int i mod long_pause_every c = 0
        then Inr (Sleep_uniform (long_pause_min c) (long_pause_max c))
        else Inr (Sleep_uniform (min_delay c) (max_delay c)))"

text \<open>\<open>for i, city in enumerate(cities, start=1)\<close>\<close>

fun scan :: "world \<Rightarrow> run_args \<Rightarrow> nat \<Rightarrow> string list \<Rightarrow> run_state \<Rightarrow> outcome \<times> event list \<times> run_state" where
  "scan w a i [] st = (Completed, [], st)"
| "scan w a i (c # rest) st =
     (if shutdown_requested st then (Completed, [], st)
      else
        (case process_target w a i c st of
           (success, evs, st') \<Rightarrow>
             if \<not> success \<and> consecutive_errors st' \<ge> 5 then (Completed, evs, st')
             else
               (case delay_between_cities (cfg a) i of
                  Inl e \<Rightarrow> (Raised e, evs, st')
                | Inr d \<Rightarrow> emit (evs @ [d]) (scan w a (Suc i) rest st'))))"

text \<open>
  \<open>run\<close>: the browser is closed in the \<open>finally\<close> clause; the last \<open>save_results\<close> and the
  report follow the \<open>async with\<close> block, so they are reached only when no exception leaves it.
\<close>

definition run :: "world \<Rightarrow> run_args \<Rightarrow> int \<Rightarrow> string list \<Rightarrow> run_state \<Rightarrow> outcome \<times> event list \<times> run_state" where
  "run w a skip cities0 st0 =
     (let cities = (if skip > 0 then drop (nat skip) cities0 else cities0)
      in if cities = [] then (Completed, [], st0)
         else
           (let st1 = st0\<lparr>consecutive_errors := 0,
                          shutdown_requested := shutdown_requested st0 \<or> interrupted w 0\<rparr>
            in case (if warm_up_fails w then (Raised (BrowserError ''warm_cookies''), [], st1)
                     else scan w a 1 cities st1) of
                 (Raised e, evs, st2) \<Rightarrow>
                   (Raised e, [Launch_browser, Warm_cookies] @ evs @ [Close_browser], st2)
               | (Completed, evs, st2) \<Rightarrow>
                   (Completed,
                    [Launch_browser, Warm_cookies] @ evs @
                      [Close_browser, Flush (collected_results st2),
                       Print_report (collected_results st2)],
                    st2\<lparr>output_files := save_results (collected_results st2) (output_files st2)\<rparr>)))"

definition initial_state :: run_state where
  "initial_state =
     \<lparr>collected_results = [], shutdown_requested = False, consecutive_errors = 0,
      output_files = Map.empty\<rparr>"

text \<open>
  \<open>main\<close>, with the cities, the keyword groups and the configuration already read: the URL
  is parsed first, and an exception of the parser leaves \<open>main\<close> before \<open>run\<close> is called.
\<close>

definition main :: "urllib \<Rightarrow> world \<Rightarrow> string \<Rightarrow> int \<Rightarrow> string list \<Rightarrow> string list list \<Rightarrow> scan_config \<Rightarrow> bool \<Rightarrow> outcome \<times> event list \<times> run_state" where
  "main lib w url skip cities kws c debug =
     (case parse_category_path lib url of
        Inl e \<Rightarrow> (Raised e, [], initial_state)
      | Inr (path, q) \<Rightarrow>
          run w \<lparr>cfg = (if debug then c\<lparr>headless := False\<rparr> else c),
                 category_path = path, keyword_rules = kws, query = q\<rparr>
            skip cities initial_state)"

section \<open>Notions the properties are stated with\<close>

text \<open>The number of navigations to a target in a sequence of calls.\<close>

fun is_goto :: "event \<Rightarrow> bool" where
  "is_goto (Goto u) = True"
| "is_goto e = False"

definition navigations :: "event list \<Rightarrow> nat" where
  "navigations evs = length (filter is_goto evs)"

fun is_flush :: "event \<Rightarrow> bool" where
  "is_flush (Flush rs) = True"
| "is_flush e = False"

text \<open>The records of the first pass that extracts, among the \<open>n\<close> passes from pass \<open>k\<close> on.\<close>

fun first_done :: "world \<Rightarrow> nat \<Rightarrow> nat \<Rightarrow> nat \<Rightarrow> ad list option" where
  "first_done w i 0 k = None"
| "first_done w i (Suc n) k =
     (case attempt w i k of Done ads \<Rightarrow> Some ads | Blocked \<Rightarrow> first_done w i n (Suc k)
      | Failed msg \<Rightarrow> first_done w i n (Suc k))"

text \<open>The records target \<open>i\<close> contributes: none when every pass of its budget fails.\<close>

definition target_records :: "world \<Rightarrow> run_args \<Rightarrow> nat \<Rightarrow> string \<Rightarrow> ad_record list" where
  "target_records w a i c =
     (case first_done w i (nat (max_retries (cfg a) + 1)) 0 of
        Some ads \<Rightarrow> map (stamp w a c) ads
      | None \<Rightarrow> [])"

text \<open>The records of the targets \<open>cs\<close>, numbered from \<open>i\<close>, in order.\<close>

definition cumulative :: "world \<Rightarrow> run_args \<Rightarrow> nat \<Rightarrow> string list \<Rightarrow> ad_record list" where
  "cumulative w a i cs = concat (map (\<lambda>(j, c). target_records w a j c) (enumerate i cs))"


section \<open>Scenarios\<close>

definition plain_js :: js_builtins where
  "plain_js = \<lparr>trim = (\<lambda>s. s), strip_rating = (\<lambda>s. s)\<rparr>"

definition plain_lib :: urllib where
  "plain_lib = \<lparr>percent_decode = (\<lambda>s. s), check_bracketed_host = (\<lambda>h. True),
                check_nfkc = (\<lambda>h. True)\<rparr>"

definition listed :: "string \<Rightarrow> item" where
  "listed t =
     \<lparr>title_link = Some \<lparr>href = ''https://www.avito.ru/item?x=1'', text_content = t\<rparr>,
      inner_text = t, links = []\<rparr>"

definition listing :: "string list \<Rightarrow> page" where
  "listing ts =
     \<lparr>page_url = ''https://www.avito.ru/moskva/uslugi'', page_title = Some ''uslugi'',
      selector_appears = True, container = Some (map listed ts)\<rparr>"

definition block_page :: page where
  "block_page =
     \<lparr>page_url = ''https://www.avito.ru/blocked'', page_title = None,
      selector_appears = False, container = None\<rparr>"

definition scenario :: "(nat \<Rightarrow> nat \<Rightarrow> visit) \<Rightarrow> (nat \<Rightarrow> bool) \<Rightarrow> world" where
  "scenario v s =
     \<lparr>str_lower = ascii_lower, js = plain_js, now = ''20240101_120000'',
      warm_up_fails = False, visit = v, interrupted = s\<rparr>"

definition default_config :: scan_config where
  "default_config =
     \<lparr>headless = True, min_delay = 3, max_delay = 12, long_pause_every = 25,
      long_pause_min = 15, long_pause_max = 30, page_timeout = 30000,
      selector_timeout = 10000, max_retries = 2\<rparr>"

definition args_with :: "scan_config \<Rightarrow> string list list \<Rightarrow> run_args" where
  "args_with c kws = \<lparr>cfg = c, category_path = ''uslugi'', keyword_rules = kws, query = None\<rparr>"

definition sample_record :: ad_record where
  "sample_record =
     \<lparr>ad_position = 1, ad_title = ''phone repair'', ad_url = ''https://www.avito.ru/item'',
      ad_is_reklama = False, seller_name = '''', seller_url = '''',
      city = ''moskva'', key_is_mine = True, key_run_ts = ''20240101_120000''\<rparr>"

section \<open>Properties\<close>



subsection \<open>Keyword matcher\<close>






subsection \<open>Configuration\<close>

lemma map_of_setdefault:
  "map_of (setdefault k v d) k' =
     (case map_of d k' of Some x \<Rightarrow> Some x | None \<Rightarrow> if k' = k then Some v else None)"
  by (auto simp: setdefault_def map_add_def split: option.splits)

lemma map_of_fold_setdefault:
  "map_of (fold (\<lambda>(k, v). setdefault k v) ds d) k' =
     (case map_of d k' of Some x \<Rightarrow> Some x | None \<Rightarrow> map_of ds k')"
proof (induction ds arbitrary: d)
  case Nil
  then show ?case by (simp split: option.splits)
next
  case (Cons p ds)
  obtain k v where p: "p = (k, v)" by (cases p)
  show ?case
    by (simp add: p Cons.IH map_of_setdefault split: option.splits)
qed

text \<open>
  C5. Loading the configuration is a per-key defaulting merge: every key of the supplied
  object keeps the supplied value, whatever it is (\<open>false\<close> and \<open>0\<close> included), and a key
  has its default exactly when the supplied object lacks it. With no file every key has its
  default.
\<close>

theorem load_config_merge:
  "(\<exists>c. load_config (Some (JObj supplied)) = Inr c \<and>
        (\<forall>k. map_of c k =
           (case map_of supplied k of Some v \<Rightarrow> Some v | None \<Rightarrow> map_of defaults k)))
   \<and> (\<exists>c. load_config None = Inr c \<and> (\<forall>k. map_of c k = map_of defaults k))"
  by (simp add: load_config_def map_of_fold_setdefault)

theorem load_config_merge_witness:
  "\<exists>c. load_config (Some (JObj [(''headless'', JBool False), (''max_retries'', JInt 0)])) = Inr c
       \<and> map_of c ''headless'' = Some (JBool False)
       \<and> map_of c ''max_retries'' = Some (JInt 0)
       \<and> map_of c ''min_delay'' = Some (JInt 3)"
proof -
  from load_config_merge[of "[(''headless'', JBool False), (''max_retries'', JInt 0)]"]
  obtain c where c: "load_config (Some (JObj [(''headless'', JBool False), (''max_retries'', JInt 0)])) = Inr c"
    and look: "\<And>k. map_of c k =
      (case map_of [(''headless'', JBool False), (''max_retries'', JInt 0)] k of
         Some v \<Rightarrow> Some v | None \<Rightarrow> map_of defaults k)"
    by blast
  have "map_of c ''headless'' = Some (JBool False)"
    and "map_of c ''max_retries'' = Some (JInt 0)"
    and "map_of c ''min_delay'' = Some (JInt 3)"
    by (simp_all add: look defaults_def)
  with c show ?thesis by blast
qed

subsection \<open>Extractor\<close>

lemma EXTRACT_ADS_JS_Some:
  "EXTRACT_ADS_JS b (Some its) = Some ads \<Longrightarrow>
     length ads = length its
     \<and> (\<forall>n<length its. ads ! n = extract_item b n (its ! n))
     \<and> map ad_position ads = [1..<Suc (length its)]"
proof -
  assume "EXTRACT_ADS_JS b (Some its) = Some ads"
  then have ads: "ads = map (\<lambda>(index, it). extract_item b index it) (enumerate 0 its)"
    by (simp add: EXTRACT_ADS_JS_def)
  have len: "length ads = length its" by (simp add: ads)
  have nth: "ads ! n = extract_item b n (its ! n)" if "n < length its" for n
    using that by (simp add: ads nth_enumerate_eq)
  have "map ad_position ads = map Suc [0..<length its]"
  proof (rule nth_equalityI)
    show "length (map ad_position ads) = length (map Suc [0..<length its])"
      by (simp add: len)
  next
    fix n assume "n < length (map ad_position ads)"
    then have n: "n < length its" by (simp add: len)
    then show "map ad_position ads ! n = map Suc [0..<length its] ! n"
      by (simp add: len nth extract_item_def Let_def)
  qed
  also have "\<dots> = [1..<Suc (length its)]"
    by (simp add: map_Suc_upt)
  finally show ?thesis using len nth by blast
qed

text \<open>
  C8. When the extraction from a page succeeds with \<open>N\<close> records, the records are those of
  the \<open>N\<close> its of the listing container in DOM order, and their positions are
  \<open>1, 2, ..., N\<close> in that order: no gap and no duplicate.
\<close>

theorem extraction_positions:
  "extract_ads b pg = Some ads \<Longrightarrow>
     map ad_position ads = [1..<Suc (length ads)]
     \<and> distinct (map ad_position ads)
     \<and> set (map ad_position ads) = {1..length ads}
     \<and> (\<exists>its. container pg = Some its \<and> length ads = length its
           \<and> (\<forall>n<length its. ads ! n = extract_item b n (its ! n)
                                 \<and> ad_position (ads ! n) = n + 1))"
proof -
  assume e: "extract_ads b pg = Some ads"
  then obtain its where c: "container pg = Some its"
    and x: "EXTRACT_ADS_JS b (Some its) = Some ads"
    by (cases "container pg")
       (auto simp: extract_ads_def EXTRACT_ADS_JS_def split: if_splits option.splits)
  note f = EXTRACT_ADS_JS_Some[OF x]
  from f have pos: "map ad_position ads = [1..<Suc (length ads)]" by simp
  have d: "distinct (map ad_position ads)" unfolding pos by simp
  have s: "set (map ad_position ads) = {1..length ads}"
    unfolding pos by (auto simp: atLeastLessThanSuc_atLeastAtMost)
  have n: "ad_position (ads ! n) = n + 1" if "n < length its" for n
    using f that by (simp add: extract_item_def Let_def)
  from pos d s c f n show ?thesis by blast
qed

theorem extraction_positions_witness:
  "extract_ads plain_js (listing [''first'', ''second'']) =
     Some [extract_item plain_js 0 (listed ''first''), extract_item plain_js 1 (listed ''second'')]
   \<and> map ad_position
        [extract_item plain_js 0 (listed ''first''), extract_item plain_js 1 (listed ''second'')]
      = [1, 2]"
proof -
  have e: "extract_ads plain_js (listing [''first'', ''second'']) =
     Some [extract_item plain_js 0 (listed ''first''), extract_item plain_js 1 (listed ''second'')]"
    by (simp add: extract_ads_def EXTRACT_ADS_JS_def listing_def enumerate_eq_zip upt_conv_Cons)
  from extraction_positions[OF e]
  have "map ad_position
        [extract_item plain_js 0 (listed ''first''), extract_item plain_js 1 (listed ''second'')]
      = [1..<Suc (length
        [extract_item plain_js 0 (listed ''first''), extract_item plain_js 1 (listed ''second'')])]"
    by blast
  also have "\<dots> = [1, 2]" by (simp add: upt_conv_Cons)
  finally show ?thesis using e by blast
qed


subsection \<open>Input URL\<close>

lemma ascii_lower_scheme:
  "ascii_lower ''https'' = ''https''" "ascii_lower ''http'' = ''http''"
  by (simp_all add: ascii_lower_def ascii_lower_char_def)

lemma urlsplit_https:
  assumes "\<forall>c \<in> set rest. c \<noteq> CHR ''#'' \<and> c \<noteq> CHR 0x09 \<and> c \<noteq> CHR 0x0D \<and> c \<noteq> CHR 0x0A"
  shows "urlsplit lib (''https://www.avito.ru/all/'' @ rest) =
     Inr (''https'', ''www.avito.ru'', ''/all/'' @ takeWhile (\<lambda>c. c \<noteq> CHR ''?'') rest,
          drop 1 (dropWhile (\<lambda>c. c \<noteq> CHR ''?'') rest), '''')"
proof -
  from assms have f: "filter (\<lambda>c. c \<noteq> CHR 0x09 \<and> c \<noteq> CHR 0x0D \<and> c \<noteq> CHR 0x0A) rest = rest"
    by (simp add: filter_id_conv)
  from assms have h: "CHR ''#'' \<notin> set rest" by auto
  have t: "takeWhile (\<lambda>c. c \<noteq> CHR ''?'') rest = rest" "dropWhile (\<lambda>c. c \<noteq> CHR ''?'') rest = []"
    if "CHR ''?'' \<notin> set rest"
    using that by (auto simp: takeWhile_eq_all_conv)
  show ?thesis
    by (simp add: urlsplit_def split_scheme_def partition_at_def splitnetloc_def Let_def f h t
        ascii_lower_scheme is_ascii_def is_ascii_alpha_def scheme_chars_def)
qed


lemma urlsplit_http:
  assumes "\<forall>c \<in> set rest. c \<noteq> CHR ''#'' \<and> c \<noteq> CHR 0x09 \<and> c \<noteq> CHR 0x0D \<and> c \<noteq> CHR 0x0A"
  shows "urlsplit lib (''http://www.avito.ru/all/'' @ rest) =
     Inr (''http'', ''www.avito.ru'', ''/all/'' @ takeWhile (\<lambda>c. c \<noteq> CHR ''?'') rest,
          drop 1 (dropWhile (\<lambda>c. c \<noteq> CHR ''?'') rest), '''')"
proof -
  from assms have f: "filter (\<lambda>c. c \<noteq> CHR 0x09 \<and> c \<noteq> CHR 0x0D \<and> c \<noteq> CHR 0x0A) rest = rest"
    by (simp add: filter_id_conv)
  from assms have h: "CHR ''#'' \<notin> set rest" by auto
  have t: "takeWhile (\<lambda>c. c \<noteq> CHR ''?'') rest = rest" "dropWhile (\<lambda>c. c \<noteq> CHR ''?'') rest = []"
    if "CHR ''?'' \<notin> set rest"
    using that by (auto simp: takeWhile_eq_all_conv)
  show ?thesis
    by (simp add: urlsplit_def split_scheme_def partition_at_def splitnetloc_def Let_def f h t
        ascii_lower_scheme is_ascii_def is_ascii_alpha_def scheme_chars_def)
qed

text \<open>Under one of the two prefixes the parsed path is \<open>/all/\<close> and what follows up to the
  first question mark, and the query is what follows that mark.\<close>

lemma urlparse_prefix:
  assumes "p \<in> set prefixes"
    and "\<forall>c \<in> set rest. c \<noteq> CHR ''#'' \<and> c \<noteq> CHR 0x09 \<and> c \<noteq> CHR 0x0D \<and> c \<noteq> CHR 0x0A"
    and "CHR '';'' \<notin> set (takeWhile (\<lambda>c. c \<noteq> CHR ''?'') rest)"
  shows "\<exists>parsed. urlparse lib (p @ rest) = Inr parsed
      \<and> pr_path parsed = ''/all/'' @ takeWhile (\<lambda>c. c \<noteq> CHR ''?'') rest
      \<and> pr_query parsed = drop 1 (dropWhile (\<lambda>c. c \<noteq> CHR ''?'') rest)"
proof -
  from assms(1) consider "p = ''https://www.avito.ru/all/''" | "p = ''http://www.avito.ru/all/''"
    by (auto simp: prefixes_def)
  then show ?thesis
  proof cases
    case 1
    show ?thesis
      unfolding 1 urlparse_def urlsplit_https[OF assms(2)]
      using assms(3) by simp
  next
    case 2
    show ?thesis
      unfolding 2 urlparse_def urlsplit_http[OF assms(2)]
      using assms(3) by simp
  qed
qed

lemma try_prefixes_match:
  assumes "p \<in> set prefixes"
  shows "try_prefixes lib parsed (p @ rest) prefixes =
     (case parse_qs lib (pr_query parsed) ''q'' of
        Some vs \<Rightarrow> (case vs of v # _ \<Rightarrow> Inr (drop (length ''/all/'') (pr_path parsed), Some (urlencode_q v))
                  | [] \<Rightarrow> Inl (IndexError ''list index out of range''))
      | None \<Rightarrow> Inr (drop (length ''/all/'') (pr_path parsed), None))"
proof -
  from assms consider "p = ''https://www.avito.ru/all/''" | "p = ''http://www.avito.ru/all/''"
    by (auto simp: prefixes_def)
  then show ?thesis
    by cases (simp_all add: prefixes_def Let_def split: option.splits list.splits)
qed

lemma try_prefixes_no_match:
  assumes "\<not> startswith url ''https://www.avito.ru/all/''"
    and "\<not> startswith url ''http://www.avito.ru/all/''"
  shows "\<exists>msg. try_prefixes lib parsed url prefixes = Inl (ValueError msg)"
  using assms by (simp add: prefixes_def)

lemma urlsplit_error: "urlsplit lib url = Inl e \<Longrightarrow> \<exists>msg. e = ValueError msg"
  by (auto simp: urlsplit_def Let_def split: prod.splits if_splits)

lemma urlparse_error: "urlparse lib url = Inl e \<Longrightarrow> \<exists>msg. e = ValueError msg"
  by (auto simp: urlparse_def Let_def dest: urlsplit_error split: sum.splits prod.splits)

lemma split_on_none: "c \<notin> set s \<Longrightarrow> split_on c s = [s]"
  by (induction s) auto

lemma parse_qs_empty: "parse_qs lib '''' name = None"
  by (simp add: parse_qs_def parse_qsl_def)

lemma unquote_plus_q: "unquote_plus lib ''q'' = ''q''"
  by (simp add: unquote_plus_def unquote_def)

lemma parse_qs_q:
  assumes "CHR ''&'' \<notin> set v"
  shows "parse_qs lib (CHR ''q'' # CHR ''='' # v) ''q'' =
    (if v = [] then None else Some [unquote_plus lib v])"
  using assms
  by (simp add: parse_qs_def parse_qsl_def split_on_none partition_at_def unquote_plus_q)

lemma quote_safe: "set s \<subseteq> set always_safe \<Longrightarrow> quote safe s = s"
  by (induction s) (auto simp: quote_def byte_quoter_def)

lemma quote_plus_safe:
  assumes "set s \<subseteq> set always_safe"
  shows "quote_plus s = s"
proof -
  have "CHR '' '' \<notin> set always_safe" by (simp add: always_safe_def)
  with assms have "CHR '' '' \<notin> set s" by auto
  then show ?thesis by (simp add: quote_plus_def quote_safe[OF assms])
qed

lemma unquote_plus_safe:
  assumes "set s \<subseteq> set always_safe"
  shows "unquote_plus lib s = s"
proof -
  have "CHR ''+'' \<notin> set always_safe" "CHR ''%'' \<notin> set always_safe"
    by (simp_all add: always_safe_def)
  with assms have p: "CHR ''+'' \<notin> set s" and q: "CHR ''%'' \<notin> set s" by auto
  from p have "map (\<lambda>c. if c = CHR ''+'' then CHR '' '' else c) s = s"
    by (induction s) auto
  with q show ?thesis by (simp add: unquote_plus_def unquote_def)
qed

lemma urlencode_q_eq: "urlencode_q v = ''q='' @ quote_plus v"
  by (simp add: urlencode_q_def quote_plus_def quote_def byte_quoter_def always_safe_def)

lemma parse_prefixed:
  assumes p: "p \<in> set prefixes"
    and cat: "\<forall>c \<in> set cat. c \<notin> set ''?#;'' \<and> c \<noteq> CHR 0x09 \<and> c \<noteq> CHR 0x0D \<and> c \<noteq> CHR 0x0A"
  shows "parse_category_path lib (p @ cat) = Inr (cat, None)"
    and "\<forall>c \<in> set v. c \<notin> set ''&#'' \<and> c \<noteq> CHR 0x09 \<and> c \<noteq> CHR 0x0D \<and> c \<noteq> CHR 0x0A \<Longrightarrow>
         parse_category_path lib (p @ cat @ ''?q='' @ v) =
           Inr (cat, if v = [] then None else Some (''q='' @ quote_plus (unquote_plus lib v)))"
proof -
  from cat have nq: "\<And>x. x \<in> set cat \<Longrightarrow> x \<noteq> CHR ''?''" by auto
  have tw0: "takeWhile (\<lambda>c. c \<noteq> CHR ''?'') cat = cat"
    and dw0: "dropWhile (\<lambda>c. c \<noteq> CHR ''?'') cat = []"
    using nq by (auto simp: takeWhile_eq_all_conv)
  have r0: "\<forall>c \<in> set cat. c \<noteq> CHR ''#'' \<and> c \<noteq> CHR 0x09 \<and> c \<noteq> CHR 0x0D \<and> c \<noteq> CHR 0x0A"
    using cat by auto
  have s0: "CHR '';'' \<notin> set (takeWhile (\<lambda>c. c \<noteq> CHR ''?'') cat)"
    using cat unfolding tw0 by auto
  from urlparse_prefix[OF p r0 s0, of lib] obtain parsed where
    u: "urlparse lib (p @ cat) = Inr parsed" and pp: "pr_path parsed = ''/all/'' @ cat"
    and pq: "pr_query parsed = []"
    unfolding tw0 dw0 by auto
  show "parse_category_path lib (p @ cat) = Inr (cat, None)"
    by (simp add: parse_category_path_def u try_prefixes_match[OF p] pp pq parse_qs_empty)
  assume v: "\<forall>c \<in> set v. c \<notin> set ''&#'' \<and> c \<noteq> CHR 0x09 \<and> c \<noteq> CHR 0x0D \<and> c \<noteq> CHR 0x0A"
  have tw: "takeWhile (\<lambda>c. c \<noteq> CHR ''?'') (cat @ ''?q='' @ v) = cat"
    using nq by (simp add: takeWhile_append2)
  have dw: "dropWhile (\<lambda>c. c \<noteq> CHR ''?'') (cat @ ''?q='' @ v) = ''?q='' @ v"
    using nq by (simp add: dropWhile_append2)
  have r1: "\<forall>c \<in> set (cat @ ''?q='' @ v).
      c \<noteq> CHR ''#'' \<and> c \<noteq> CHR 0x09 \<and> c \<noteq> CHR 0x0D \<and> c \<noteq> CHR 0x0A"
    using cat v by auto
  have s1: "CHR '';'' \<notin> set (takeWhile (\<lambda>c. c \<noteq> CHR ''?'') (cat @ ''?q='' @ v))"
    using cat unfolding tw by auto
  from urlparse_prefix[OF p r1 s1, of lib] obtain parsed' where
    u': "urlparse lib (p @ cat @ ''?q='' @ v) = Inr parsed'"
    and pp': "pr_path parsed' = ''/all/'' @ cat"
    and pq': "pr_query parsed' = ''q='' @ v"
    unfolding tw dw by auto
  from v have amp: "CHR ''&'' \<notin> set v" by auto
  have "try_prefixes lib parsed' (p @ cat @ ''?q='' @ v) prefixes =
      Inr (cat, if v = [] then None else Some (''q='' @ quote_plus (unquote_plus lib v)))"
    unfolding try_prefixes_match[OF p]
    by (simp add: pp' pq' parse_qs_q[OF amp] urlencode_q_eq)
  then show "parse_category_path lib (p @ cat @ ''?q='' @ v) =
           Inr (cat, if v = [] then None else Some (''q='' @ quote_plus (unquote_plus lib v)))"
    unfolding parse_category_path_def u' by (simp only: sum.case)
qed

lemma parse_other_prefix:
  assumes "\<not> startswith url ''https://www.avito.ru/all/''"
    and "\<not> startswith url ''http://www.avito.ru/all/''"
  shows "\<exists>msg. parse_category_path lib url = Inl (ValueError msg)"
proof (cases "urlparse lib url")
  case (Inl e)
  from urlparse_error[OF Inl] Inl show ?thesis
    by (auto simp: parse_category_path_def)
next
  case (Inr parsed)
  from try_prefixes_no_match[OF assms, of lib parsed] Inr show ?thesis
    by (auto simp: parse_category_path_def)
qed

text \<open>
  C4 (as the code has it). For a URL made of one of the two accepted prefixes,
  \<open>https://www.avito.ru/all/\<close> or \<open>http://www.avito.ru/all/\<close>, and a category path free
  of \<open>?\<close>, \<open>#\<close>, \<open>;\<close>, tab and line breaks, the parser returns the category path and no
  query; with \<open>?q=<value>\<close> appended (the value free of \<open>&\<close>, \<open>#\<close>, tab and line breaks) it
  returns the category path and \<open>q=\<close> followed by the re-encoded value, which is the value
  itself when it is made of unreserved characters; an empty value counts as no query. A URL
  that starts with neither prefix raises \<open>ValueError\<close>, and \<open>main\<close> ends with that exception
  before any call of the run.
\<close>

theorem parse_category_path_spec:
  "(p \<in> set prefixes
      \<and> (\<forall>c \<in> set cat. c \<notin> set ''?#;'' \<and> c \<noteq> CHR 0x09 \<and> c \<noteq> CHR 0x0D \<and> c \<noteq> CHR 0x0A) \<longrightarrow>
      parse_category_path lib (p @ cat) = Inr (cat, None)
      \<and> parse_category_path lib (p @ cat @ ''?q='') = Inr (cat, None)
      \<and> (v \<noteq> [] \<and> (\<forall>c \<in> set v. c \<notin> set ''&#'' \<and> c \<noteq> CHR 0x09 \<and> c \<noteq> CHR 0x0D \<and> c \<noteq> CHR 0x0A) \<longrightarrow>
           parse_category_path lib (p @ cat @ ''?q='' @ v) =
             Inr (cat, Some (''q='' @ quote_plus (unquote_plus lib v))))
      \<and> (v \<noteq> [] \<and> set v \<subseteq> set always_safe \<longrightarrow>
           parse_category_path lib (p @ cat @ ''?q='' @ v) = Inr (cat, Some (''q='' @ v))))
   \<and> (\<not> startswith url ''https://www.avito.ru/all/''
        \<and> \<not> startswith url ''http://www.avito.ru/all/'' \<longrightarrow>
        (\<exists>msg. parse_category_path lib url = Inl (ValueError msg)
           \<and> main lib w url skip cities kws cf debug = (Raised (ValueError msg), [], initial_state)))"
proof (intro conjI impI)
  assume h: "p \<in> set prefixes
      \<and> (\<forall>c \<in> set cat. c \<notin> set ''?#;'' \<and> c \<noteq> CHR 0x09 \<and> c \<noteq> CHR 0x0D \<and> c \<noteq> CHR 0x0A)"
  then have p: "p \<in> set prefixes"
    and cat: "\<forall>c \<in> set cat. c \<notin> set ''?#;'' \<and> c \<noteq> CHR 0x09 \<and> c \<noteq> CHR 0x0D \<and> c \<noteq> CHR 0x0A"
    by blast+
  show "parse_category_path lib (p @ cat) = Inr (cat, None)"
    by (rule parse_prefixed(1)[OF p cat])
  show "parse_category_path lib (p @ cat @ ''?q='') = Inr (cat, None)"
    using parse_prefixed(2)[OF p cat, of "[]" lib] by simp
  {
    assume "v \<noteq> [] \<and> (\<forall>c \<in> set v. c \<notin> set ''&#'' \<and> c \<noteq> CHR 0x09 \<and> c \<noteq> CHR 0x0D \<and> c \<noteq> CHR 0x0A)"
    then show "parse_category_path lib (p @ cat @ ''?q='' @ v) =
             Inr (cat, Some (''q='' @ quote_plus (unquote_plus lib v)))"
      using parse_prefixed(2)[OF p cat, of v lib] by simp
  }
  {
    assume s: "v \<noteq> [] \<and> set v \<subseteq> set always_safe"
    have "\<forall>c \<in> set always_safe. c \<notin> set ''&#'' \<and> c \<noteq> CHR 0x09 \<and> c \<noteq> CHR 0x0D \<and> c \<noteq> CHR 0x0A"
      by (simp add: always_safe_def)
    with s have "\<forall>c \<in> set v. c \<notin> set ''&#'' \<and> c \<noteq> CHR 0x09 \<and> c \<noteq> CHR 0x0D \<and> c \<noteq> CHR 0x0A"
      by blast
    from parse_prefixed(2)[OF p cat this, of lib] s
    show "parse_category_path lib (p @ cat @ ''?q='' @ v) = Inr (cat, Some (''q='' @ v))"
      by (simp add: unquote_plus_safe quote_plus_safe)
  }
next
  assume "\<not> startswith url ''https://www.avito.ru/all/''
        \<and> \<not> startswith url ''http://www.avito.ru/all/''"
  then obtain msg where "parse_category_path lib url = Inl (ValueError msg)"
    using parse_other_prefix by blast
  then show "\<exists>msg. parse_category_path lib url = Inl (ValueError msg)
           \<and> main lib w url skip cities kws cf debug = (Raised (ValueError msg), [], initial_state)"
    by (simp add: main_def)
qed

theorem parse_category_path_spec_witness:
  "parse_category_path plain_lib ''https://www.avito.ru/all/uslugi/remont?q=iphone'' =
     Inr (''uslugi/remont'', Some ''q=iphone'')
   \<and> parse_category_path plain_lib ''https://www.avito.ru/all/uslugi/remont'' =
     Inr (''uslugi/remont'', None)
   \<and> (\<exists>msg. parse_category_path plain_lib ''https://example.com/all/uslugi'' = Inl (ValueError msg)
        \<and> main plain_lib (scenario (\<lambda>i k. Arrives (listing [])) (\<lambda>i. False))
             ''https://example.com/all/uslugi'' 0 [''moskva''] [] default_config False =
           (Raised (ValueError msg), [], initial_state))"
proof -
  have p: "''https://www.avito.ru/all/'' \<in> set prefixes"
    by (simp add: prefixes_def)
  have c: "\<forall>c \<in> set ''uslugi/remont''.
      c \<notin> set ''?#;'' \<and> c \<noteq> CHR 0x09 \<and> c \<noteq> CHR 0x0D \<and> c \<noteq> CHR 0x0A"
    by simp
  have v: "''iphone'' \<noteq> [] \<and> set ''iphone'' \<subseteq> set always_safe"
    by (simp add: always_safe_def)
  have n: "\<not> startswith ''https://example.com/all/uslugi'' ''https://www.avito.ru/all/''
      \<and> \<not> startswith ''https://example.com/all/uslugi'' ''http://www.avito.ru/all/''"
    by simp
  note t = parse_category_path_spec[of "''https://www.avito.ru/all/''" "''uslugi/remont''"
      plain_lib "''iphone''" "''https://example.com/all/uslugi''"
      "scenario (\<lambda>i k. Arrives (listing [])) (\<lambda>i. False)" 0 "[''moskva'']" "[]"
      default_config False]
  from t p c v have
    "parse_category_path plain_lib
       (''https://www.avito.ru/all/'' @ ''uslugi/remont'' @ ''?q='' @ ''iphone'') =
     Inr (''uslugi/remont'', Some (''q='' @ ''iphone''))"
    by blast
  then have a: "parse_category_path plain_lib ''https://www.avito.ru/all/uslugi/remont?q=iphone'' =
     Inr (''uslugi/remont'', Some ''q=iphone'')"
    by simp
  from t p c have
    "parse_category_path plain_lib (''https://www.avito.ru/all/'' @ ''uslugi/remont'') =
     Inr (''uslugi/remont'', None)"
    by blast
  then have b: "parse_category_path plain_lib ''https://www.avito.ru/all/uslugi/remont'' =
     Inr (''uslugi/remont'', None)"
    by simp
  from t n have d: "\<exists>msg. parse_category_path plain_lib ''https://example.com/all/uslugi'' = Inl (ValueError msg)
        \<and> main plain_lib (scenario (\<lambda>i k. Arrives (listing [])) (\<lambda>i. False))
             ''https://example.com/all/uslugi'' 0 [''moskva''] [] default_config False =
           (Raised (ValueError msg), [], initial_state)"
    by blast
  from a b d show ?thesis by blast
qed

text \<open>
  C4 as written fails: a URL under \<open>http://www.avito.ru/all/\<close> does not start with
  \<open>https://www.avito.ru/all/\<close>, and the parser accepts it.
\<close>

theorem parse_category_path_spec_counterexample:
  "\<not> startswith ''http://www.avito.ru/all/uslugi/remont'' ''https://www.avito.ru/all/''
   \<and> parse_category_path plain_lib ''http://www.avito.ru/all/uslugi/remont'' =
        Inr (''uslugi/remont'', None)"
proof -
  have p: "''http://www.avito.ru/all/'' \<in> set prefixes"
    by (simp add: prefixes_def)
  have c: "\<forall>c \<in> set ''uslugi/remont''.
      c \<notin> set ''?#;'' \<and> c \<noteq> CHR 0x09 \<and> c \<noteq> CHR 0x0D \<and> c \<noteq> CHR 0x0A"
    by simp
  from parse_prefixed(1)[OF p c, of plain_lib] show ?thesis by simp
qed

subsection \<open>Scan orchestrator: the passes of one target\<close>

lemma emit_pair [simp]: "emit evs (x, evs', st) = (x, evs @ evs', st)"
  by (simp add: emit_def)

lemma emit_eq_iff:
  "emit evs r = (x, out, st) \<longleftrightarrow> (\<exists>evs'. r = (x, evs', st) \<and> out = evs @ evs')"
  by (cases r) auto

lemma navigations_simps [simp]:
  "navigations [] = 0"
  "navigations (Goto u # evs) = Suc (navigations evs)"
  "navigations (Sleep_uniform x y # evs) = navigations evs"
  "navigations (Flush rs # evs) = navigations evs"
  "navigations (xs @ ys) = navigations xs + navigations ys"
  by (simp_all add: navigations_def)

text \<open>A target whose passes all fail leaves the state as it was.\<close>

lemma attempt_loop_failure:
  "attempt_loop w a i c n k st = (False, evs, st') \<Longrightarrow>
     st' = st \<and> navigations evs = n \<and> first_done w i n k = None \<and> \<not> list_ex is_flush evs"
proof (induction n arbitrary: k evs)
  case 0
  then show ?case by simp
next
  case (Suc n)
  show ?case
  proof (cases "attempt w i k")
    case (Done ads)
    with Suc.prems show ?thesis by (simp add: Let_def)
  next
    case Blocked
    with Suc.prems obtain evs' where
      r: "attempt_loop w a i c n (Suc k) st = (False, evs', st')"
      and e: "evs = [Goto (target_url a c), Sleep_uniform 60 120] @ evs'"
      by (auto simp: emit_eq_iff)
    from Suc.IH[OF r] show ?thesis by (simp add: e Blocked)
  next
    case (Failed msg)
    with Suc.prems obtain evs' where
      r: "attempt_loop w a i c n (Suc k) st = (False, evs', st')"
      and e: "evs = [Goto (target_url a c), Sleep_uniform 10 20] @ evs'"
      by (auto simp: emit_eq_iff)
    from Suc.IH[OF r] show ?thesis by (simp add: e Failed)
  qed
qed

text \<open>A target that succeeds appends the records of its first extracting pass and writes
  all collected records.\<close>

lemma attempt_loop_success:
  "attempt_loop w a i c n k st = (True, evs, st') \<Longrightarrow>
     \<exists>ads pre. first_done w i n k = Some ads
       \<and> st' = st\<lparr>collected_results := collected_results st @ map (stamp w a c) ads,
                  output_files := save_results (collected_results st @ map (stamp w a c) ads)
                                    (output_files st),
                  consecutive_errors := 0\<rparr>
       \<and> evs = pre @ [Goto (target_url a c), Flush (collected_results st @ map (stamp w a c) ads)]
       \<and> \<not> list_ex is_flush pre
       \<and> navigations evs \<le> n"
proof (induction n arbitrary: k evs)
  case 0
  then show ?case by simp
next
  case (Suc n)
  show ?case
  proof (cases "attempt w i k")
    case (Done ads)
    with Suc.prems show ?thesis by (auto simp: Let_def)
  next
    case Blocked
    with Suc.prems obtain evs' where
      r: "attempt_loop w a i c n (Suc k) st = (True, evs', st')"
      and e: "evs = [Goto (target_url a c), Sleep_uniform 60 120] @ evs'"
      by (auto simp: emit_eq_iff)
    from Suc.IH[OF r] obtain ads pre where
      "first_done w i n (Suc k) = Some ads"
      "st' = st\<lparr>collected_results := collected_results st @ map (stamp w a c) ads,
                  output_files := save_results (collected_results st @ map (stamp w a c) ads)
                                    (output_files st),
                  consecutive_errors := 0\<rparr>"
      "evs' = pre @ [Goto (target_url a c), Flush (collected_results st @ map (stamp w a c) ads)]"
      "\<not> list_ex is_flush pre" "navigations evs' \<le> n"
      by blast
    then show ?thesis
      by (intro exI[of _ ads] exI[of _ "[Goto (target_url a c), Sleep_uniform 60 120] @ pre"])
         (simp add: e Blocked)
  next
    case (Failed msg)
    with Suc.prems obtain evs' where
      r: "attempt_loop w a i c n (Suc k) st = (True, evs', st')"
      and e: "evs = [Goto (target_url a c), Sleep_uniform 10 20] @ evs'"
      by (auto simp: emit_eq_iff)
    from Suc.IH[OF r] obtain ads pre where
      "first_done w i n (Suc k) = Some ads"
      "st' = st\<lparr>collected_results := collected_results st @ map (stamp w a c) ads,
                  output_files := save_results (collected_results st @ map (stamp w a c) ads)
                                    (output_files st),
                  consecutive_errors := 0\<rparr>"
      "evs' = pre @ [Goto (target_url a c), Flush (collected_results st @ map (stamp w a c) ads)]"
      "\<not> list_ex is_flush pre" "navigations evs' \<le> n"
      by blast
    then show ?thesis
      by (intro exI[of _ ads] exI[of _ "[Goto (target_url a c), Sleep_uniform 10 20] @ pre"])
         (simp add: e Failed)
  qed
qed

lemma process_target_failure:
  assumes "process_target w a i c st = (False, evs, st')"
  shows "st' = st\<lparr>shutdown_requested := shutdown_requested st \<or> interrupted w i,
                    consecutive_errors := consecutive_errors st + 1\<rparr>"
    and "navigations evs = nat (max_retries (cfg a) + 1)"
    and "first_done w i (nat (max_retries (cfg a) + 1)) 0 = None"
    and "\<not> list_ex is_flush evs"
proof -
  obtain ok evs1 st1 where
    r: "attempt_loop w a i c (nat (max_retries (cfg a) + 1)) 0 st = (ok, evs1, st1)"
    by (cases "attempt_loop w a i c (nat (max_retries (cfg a) + 1)) 0 st") auto
  with assms have ok: "ok = False" and e: "evs = evs1"
    by (auto simp: process_target_def Let_def split: if_splits)
  from attempt_loop_failure[OF r[unfolded ok]] have
    f: "st1 = st" "navigations evs1 = nat (max_retries (cfg a) + 1)"
      "first_done w i (nat (max_retries (cfg a) + 1)) 0 = None" "\<not> list_ex is_flush evs1"
    by simp_all
  from assms r ok f show "st' = st\<lparr>shutdown_requested := shutdown_requested st \<or> interrupted w i,
                    consecutive_errors := consecutive_errors st + 1\<rparr>"
    by (simp add: process_target_def Let_def)
  from f e show "navigations evs = nat (max_retries (cfg a) + 1)"
    and "first_done w i (nat (max_retries (cfg a) + 1)) 0 = None"
    and "\<not> list_ex is_flush evs"
    by simp_all
qed

lemma process_target_success:
  assumes "process_target w a i c st = (True, evs, st')"
  obtains ads pre where
    "first_done w i (nat (max_retries (cfg a) + 1)) 0 = Some ads"
    "st' = st\<lparr>collected_results := collected_results st @ map (stamp w a c) ads,
               output_files := save_results (collected_results st @ map (stamp w a c) ads)
                                 (output_files st),
               consecutive_errors := 0,
               shutdown_requested := shutdown_requested st \<or> interrupted w i\<rparr>"
    "evs = pre @ [Goto (target_url a c), Flush (collected_results st @ map (stamp w a c) ads)]"
    "\<not> list_ex is_flush pre"
    "navigations evs \<le> nat (max_retries (cfg a) + 1)"
proof -
  obtain ok evs1 st1 where
    r: "attempt_loop w a i c (nat (max_retries (cfg a) + 1)) 0 st = (ok, evs1, st1)"
    by (cases "attempt_loop w a i c (nat (max_retries (cfg a) + 1)) 0 st") auto
  with assms have ok: "ok = True" and e: "evs = evs1"
    and s: "st' = st1\<lparr>shutdown_requested := shutdown_requested st1 \<or> interrupted w i\<rparr>"
    by (auto simp: process_target_def Let_def split: if_splits)
  from attempt_loop_success[OF r[unfolded ok]] obtain ads pre where
    f: "first_done w i (nat (max_retries (cfg a) + 1)) 0 = Some ads"
      "st1 = st\<lparr>collected_results := collected_results st @ map (stamp w a c) ads,
                  output_files := save_results (collected_results st @ map (stamp w a c) ads)
                                    (output_files st),
                  consecutive_errors := 0\<rparr>"
      "evs1 = pre @ [Goto (target_url a c), Flush (collected_results st @ map (stamp w a c) ads)]"
      "\<not> list_ex is_flush pre" "navigations evs1 \<le> nat (max_retries (cfg a) + 1)"
    by blast
  show thesis
    by (rule that[of ads pre]) (use f e s in simp_all)
qed

lemma process_target_collected:
  "process_target w a i c st = (success, evs, st') \<Longrightarrow>
     collected_results st' = collected_results st @ target_records w a i c"
proof (cases success)
  case True
  assume "process_target w a i c st = (success, evs, st')"
  with True have "process_target w a i c st = (True, evs, st')" by simp
  then show ?thesis
    by (rule process_target_success) (simp add: target_records_def)
next
  case False
  assume "process_target w a i c st = (success, evs, st')"
  with False have p: "process_target w a i c st = (False, evs, st')" by simp
  show ?thesis
    using process_target_failure(1,3)[OF p] by (simp add: target_records_def)
qed

lemma scan_shutdown: "shutdown_requested st \<Longrightarrow> scan w a i cs st = (Completed, [], st)"
  by (cases cs) simp_all

lemma scan_step:
  "\<not> shutdown_requested st \<Longrightarrow> process_target w a i c st = (success, evs, st') \<Longrightarrow>
     scan w a i (c # rest) st =
       (if \<not> success \<and> 5 \<le> consecutive_errors st' then (Completed, evs, st')
        else (case delay_between_cities (cfg a) i of
                Inl e \<Rightarrow> (Raised e, evs, st')
              | Inr d \<Rightarrow> emit (evs @ [d]) (scan w a (Suc i) rest st')))"
  by simp

declare scan.simps(2) [simp del]

text \<open>
  C2. A target is navigated to at most \<open>max_retries + 1\<close> times; when it is marked failed
  (the count of consecutive failures goes up) exactly that many navigations were made, three
  for \<open>max_retries = 2\<close>. A pass that meets a block sleeps 60 to 120 seconds and goes on
  with the passes that are left, one fewer: a block gets no extra pass.
\<close>

theorem retry_budget:
  "(process_target w a i c st = (success, evs, st') \<longrightarrow>
      navigations evs \<le> nat (max_retries (cfg a) + 1)
      \<and> (\<not> success \<longrightarrow> navigations evs = nat (max_retries (cfg a) + 1)
                       \<and> consecutive_errors st' = consecutive_errors st + 1)
      \<and> (\<not> success \<and> max_retries (cfg a) = 2 \<longrightarrow> navigations evs = 3))
   \<and> (attempt w i k = Blocked \<longrightarrow>
        attempt_loop w a i c (Suc n) k st =
          emit [Goto (target_url a c), Sleep_uniform 60 120] (attempt_loop w a i c n (Suc k) st))"
proof (intro conjI impI)
  assume p: "process_target w a i c st = (success, evs, st')"
  show "navigations evs \<le> nat (max_retries (cfg a) + 1)"
  proof (cases success)
    case True
    with p have "process_target w a i c st = (True, evs, st')" by simp
    then show ?thesis by (rule process_target_success)
  next
    case False
    with p have "process_target w a i c st = (False, evs, st')" by simp
    from process_target_failure(2)[OF this] show ?thesis by simp
  qed
  {
    assume "\<not> success"
    with p have f: "process_target w a i c st = (False, evs, st')" by simp
    from process_target_failure(2)[OF f]
    show "navigations evs = nat (max_retries (cfg a) + 1)" .
    from process_target_failure(1)[OF f]
    show "consecutive_errors st' = consecutive_errors st + 1" by simp
  }
  {
    assume "\<not> success \<and> max_retries (cfg a) = 2"
    with p have f: "process_target w a i c st = (False, evs, st')" and m: "max_retries (cfg a) = 2"
      by simp_all
    from process_target_failure(2)[OF f] m show "navigations evs = 3" by simp
  }
next
  assume "attempt w i k = Blocked"
  then show "attempt_loop w a i c (Suc n) k st =
          emit [Goto (target_url a c), Sleep_uniform 60 120] (attempt_loop w a i c n (Suc k) st)"
    by simp
qed

lemma scenario_sel [simp]:
  "str_lower (scenario v s) = ascii_lower"
  "js (scenario v s) = plain_js"
  "now (scenario v s) = ''20240101_120000''"
  "warm_up_fails (scenario v s) = False"
  "visit (scenario v s) = v"
  "interrupted (scenario v s) = s"
  by (simp_all add: scenario_def)

lemma args_with_sel [simp]:
  "cfg (args_with c kws) = c"
  "category_path (args_with c kws) = ''uslugi''"
  "keyword_rules (args_with c kws) = kws"
  "query (args_with c kws) = None"
  by (simp_all add: args_with_def)

lemma blocked_attempt: "attempt (scenario (\<lambda>i k. Arrives block_page) s) i k = Blocked"
  by (simp add: attempt_def block_page_def looks_like_captcha_def url_hints_def
      ascii_lower_def ascii_lower_char_def)

lemma blocked_target:
  "process_target (scenario (\<lambda>i k. Arrives block_page) (\<lambda>i. False))
      (args_with default_config []) 1 ''moskva'' initial_state =
     (False,
      [Goto ''https://www.avito.ru/moskva/uslugi'', Sleep_uniform 60 120,
       Goto ''https://www.avito.ru/moskva/uslugi'', Sleep_uniform 60 120,
       Goto ''https://www.avito.ru/moskva/uslugi'', Sleep_uniform 60 120],
      initial_state\<lparr>consecutive_errors := 1\<rparr>)"
  by (simp add: process_target_def blocked_attempt default_config_def
      target_url_def numeral_3_eq_3 initial_state_def Let_def)

theorem retry_budget_witness:
  "process_target (scenario (\<lambda>i k. Arrives block_page) (\<lambda>i. False))
      (args_with default_config []) 1 ''moskva'' initial_state =
     (False,
      [Goto ''https://www.avito.ru/moskva/uslugi'', Sleep_uniform 60 120,
       Goto ''https://www.avito.ru/moskva/uslugi'', Sleep_uniform 60 120,
       Goto ''https://www.avito.ru/moskva/uslugi'', Sleep_uniform 60 120],
      initial_state\<lparr>consecutive_errors := 1\<rparr>)
   \<and> navigations
        [Goto ''https://www.avito.ru/moskva/uslugi'', Sleep_uniform 60 120,
         Goto ''https://www.avito.ru/moskva/uslugi'', Sleep_uniform 60 120,
         Goto ''https://www.avito.ru/moskva/uslugi'', Sleep_uniform 60 120] = 3
   \<and> max_retries (cfg (args_with default_config [])) = 2
   \<and> attempt (scenario (\<lambda>i k. Arrives block_page) (\<lambda>i. False)) 1 0 = Blocked
   \<and> attempt_loop (scenario (\<lambda>i k. Arrives block_page) (\<lambda>i. False))
         (args_with default_config []) 1 ''moskva'' (Suc 2) 0 initial_state =
       emit [Goto (target_url (args_with default_config []) ''moskva''), Sleep_uniform 60 120]
         (attempt_loop (scenario (\<lambda>i k. Arrives block_page) (\<lambda>i. False))
            (args_with default_config []) 1 ''moskva'' 2 (Suc 0) initial_state)"
proof -
  have m: "max_retries (cfg (args_with default_config [])) = 2"
    by (simp add: default_config_def)
  note b = blocked_attempt[of "\<lambda>i. False" 1 0]
  note r = retry_budget[of "scenario (\<lambda>i k. Arrives block_page) (\<lambda>i. False)"
      "args_with default_config []" 1 "''moskva''" initial_state False _ _ 0 2]
  from r blocked_target m b show ?thesis by blast
qed

subsection \<open>Scan orchestrator: the loop over the targets\<close>

lemma first_done_None_iff:
  "first_done w i n k = None \<longleftrightarrow> (\<forall>j<n. \<forall>ads. attempt w i (k + j) \<noteq> Done ads)"
proof (induction n arbitrary: k)
  case 0
  then show ?case by simp
next
  case (Suc n)
  have split: "(\<forall>j<Suc n. P j) \<longleftrightarrow> P 0 \<and> (\<forall>j<n. P (Suc j))" for P
    by (metis less_Suc_eq_0_disj)
  show ?case
    by (cases "attempt w i k") (simp_all add: Suc.IH split)
qed

text \<open>
  C6. The count of consecutive failures goes up by one exactly when no pass of the target's
  budget extracts, and is 0 after a target that succeeds. A failed target changes neither the
  collected records nor the output files. When the count reaches 5 the loop ends there: the
  calls of the run up to that point are those of the targets so far, and no later target is
  navigated to.
\<close>

theorem consecutive_failures:
  "process_target w a i c st = (success, evs, st') \<Longrightarrow>
     (success \<longleftrightarrow> (\<exists>j < nat (max_retries (cfg a) + 1). \<exists>ads. attempt w i j = Done ads))
     \<and> (success \<longrightarrow> consecutive_errors st' = 0)
     \<and> (\<not> success \<longrightarrow>
           consecutive_errors st' = consecutive_errors st + 1
           \<and> navigations evs = nat (max_retries (cfg a) + 1)
           \<and> collected_results st' = collected_results st
           \<and> output_files st' = output_files st)
     \<and> (\<not> shutdown_requested st \<and> \<not> success \<and> 5 \<le> consecutive_errors st' \<longrightarrow>
           scan w a i (c # rest) st = (Completed, evs, st'))"
proof (cases success)
  case True
  assume "process_target w a i c st = (success, evs, st')"
  with True have p: "process_target w a i c st = (True, evs, st')" by simp
  from p obtain ads where
    fd: "first_done w i (nat (max_retries (cfg a) + 1)) 0 = Some ads"
    and ce: "consecutive_errors st' = 0"
    by (rule process_target_success) simp
  from fd have "first_done w i (nat (max_retries (cfg a) + 1)) 0 \<noteq> None" by simp
  then have "\<exists>j < nat (max_retries (cfg a) + 1). \<exists>ads. attempt w i j = Done ads"
    by (simp add: first_done_None_iff)
  with True ce show ?thesis by simp
next
  case False
  assume "process_target w a i c st = (success, evs, st')"
  with False have p: "process_target w a i c st = (False, evs, st')" by simp
  note f = process_target_failure[OF p]
  from f(3) have none: "\<not> (\<exists>j < nat (max_retries (cfg a) + 1). \<exists>ads. attempt w i j = Done ads)"
    by (simp add: first_done_None_iff)
  have stop: "scan w a i (c # rest) st = (Completed, evs, st')"
    if "\<not> shutdown_requested st" "5 \<le> consecutive_errors st'"
    using scan_step[OF that(1) p, of rest] that(2) by simp
  from False none f(1,2) stop show ?thesis by simp
qed

lemma failing_attempt: "attempt (scenario (\<lambda>i k. Raises msg) s) i k = Failed msg"
  by (simp add: attempt_def)

lemma listing_attempt:
  "attempt (scenario (\<lambda>i k. Arrives (listing ts)) s) i k =
     Done (map (\<lambda>(index, it). extract_item plain_js index it) (enumerate 0 (map listed ts)))"
  by (simp add: attempt_def listing_def looks_like_captcha_def url_hints_def title_hints_def
      ascii_lower_def ascii_lower_char_def extract_ads_def EXTRACT_ADS_JS_def)

lemma failing_target:
  "process_target (scenario (\<lambda>i k. Raises ''timeout'') (\<lambda>i. False))
      (args_with default_config []) 5 ''kazan'' (initial_state\<lparr>consecutive_errors := 4\<rparr>) =
     (False,
      [Goto ''https://www.avito.ru/kazan/uslugi'', Sleep_uniform 10 20,
       Goto ''https://www.avito.ru/kazan/uslugi'', Sleep_uniform 10 20,
       Goto ''https://www.avito.ru/kazan/uslugi'', Sleep_uniform 10 20],
      initial_state\<lparr>consecutive_errors := 5\<rparr>)"
  by (simp add: process_target_def failing_attempt default_config_def
      target_url_def numeral_3_eq_3 initial_state_def Let_def)

lemma empty_listing_target:
  "process_target (scenario (\<lambda>i k. Arrives (listing [])) s)
      (args_with default_config []) i ''moskva'' (initial_state\<lparr>consecutive_errors := n\<rparr>) =
     (True,
      [Goto ''https://www.avito.ru/moskva/uslugi'', Flush []],
      initial_state\<lparr>shutdown_requested := s i\<rparr>)"
  by (simp add: process_target_def listing_attempt default_config_def
      target_url_def numeral_3_eq_3 initial_state_def save_results_def enumerate_eq_zip)

theorem consecutive_failures_witness:
  "scan (scenario (\<lambda>i k. Raises ''timeout'') (\<lambda>i. False)) (args_with default_config [])
       5 [''kazan'', ''omsk''] (initial_state\<lparr>consecutive_errors := 4\<rparr>) =
     (Completed,
      [Goto ''https://www.avito.ru/kazan/uslugi'', Sleep_uniform 10 20,
       Goto ''https://www.avito.ru/kazan/uslugi'', Sleep_uniform 10 20,
       Goto ''https://www.avito.ru/kazan/uslugi'', Sleep_uniform 10 20],
      initial_state\<lparr>consecutive_errors := 5\<rparr>)
   \<and> consecutive_errors (initial_state\<lparr>shutdown_requested := False\<rparr>) = 0
   \<and> (\<exists>j<3. \<exists>ads. attempt (scenario (\<lambda>i k. Arrives (listing [])) (\<lambda>i. False)) 1 j = Done ads)"
proof -
  have ns: "\<not> shutdown_requested (initial_state\<lparr>consecutive_errors := 4\<rparr>)"
    by (simp add: initial_state_def)
  have five: "5 \<le> consecutive_errors (initial_state\<lparr>consecutive_errors := 5\<rparr>)"
    by simp
  from consecutive_failures[OF failing_target, of "[''omsk'']"] ns five
  have a: "scan (scenario (\<lambda>i k. Raises ''timeout'') (\<lambda>i. False)) (args_with default_config [])
       5 [''kazan'', ''omsk''] (initial_state\<lparr>consecutive_errors := 4\<rparr>) =
     (Completed,
      [Goto ''https://www.avito.ru/kazan/uslugi'', Sleep_uniform 10 20,
       Goto ''https://www.avito.ru/kazan/uslugi'', Sleep_uniform 10 20,
       Goto ''https://www.avito.ru/kazan/uslugi'', Sleep_uniform 10 20],
      initial_state\<lparr>consecutive_errors := 5\<rparr>)"
    by blast
  have m: "nat (max_retries (cfg (args_with default_config [])) + 1) = 3"
    by (simp add: default_config_def)
  from consecutive_failures[OF empty_listing_target[of "\<lambda>i. False" 1 4], of "[]"]
  have b: "consecutive_errors (initial_state\<lparr>shutdown_requested := False\<rparr>) = 0"
    and c: "\<exists>j<3. \<exists>ads. attempt (scenario (\<lambda>i k. Arrives (listing [])) (\<lambda>i. False)) 1 j = Done ads"
    unfolding m by blast+
  from a b c show ?thesis by blast
qed

text \<open>
  C9 (as the code has it). After a target, unless the run aborts on the fifth consecutive
  failure, the loop sleeps once: \<open>uniform(long_pause_min, long_pause_max)\<close> when the 1-based
  index is a multiple of \<open>long_pause_every\<close>, else \<open>uniform(min_delay, max_delay)\<close>
  (\<open>long_pause_every\<close> not 0). The abort skips the sleep. A pending shutdown request does
  not: the flag is read only at the start of the next target, after the sleep.
\<close>

theorem delay_after_target:
  "\<not> shutdown_requested st \<Longrightarrow> process_target w a i c st = (success, evs, st') \<Longrightarrow>
     (\<not> success \<and> 5 \<le> consecutive_errors st' \<longrightarrow>
        scan w a i (c # rest) st = (Completed, evs, st'))
     \<and> (\<not> (\<not> success \<and> 5 \<le> consecutive_errors st') \<and> long_pause_every (cfg a) \<noteq> 0 \<longrightarrow>
          scan w a i (c # rest) st =
            emit (evs @
                   [if long_pause_every (cfg a) dvd int i
                    then Sleep_uniform (long_pause_min (cfg a)) (long_pause_max (cfg a))
                    else Sleep_uniform (min_delay (cfg a)) (max_delay (cfg a))])
              (scan w a (Suc i) rest st')
          \<and> (shutdown_requested st' \<longrightarrow>
               scan w a i (c # rest) st =
                 (Completed,
                  evs @
                   [if long_pause_every (cfg a) dvd int i
                    then Sleep_uniform (long_pause_min (cfg a)) (long_pause_max (cfg a))
                    else Sleep_uniform (min_delay (cfg a)) (max_delay (cfg a))],
                  st')))"
proof -
  assume ns: "\<not> shutdown_requested st" and p: "process_target w a i c st = (success, evs, st')"
  note step = scan_step[OF ns p, of rest]
  have d: "delay_between_cities (cfg a) i =
      Inr (if long_pause_every (cfg a) dvd int i
           then Sleep_uniform (long_pause_min (cfg a)) (long_pause_max (cfg a))
           else Sleep_uniform (min_delay (cfg a)) (max_delay (cfg a)))"
    if "long_pause_every (cfg a) \<noteq> 0"
    using that by (simp add: delay_between_cities_def mod_eq_0_iff_dvd)
  show ?thesis
  proof (intro conjI impI)
    assume "\<not> success \<and> 5 \<le> consecutive_errors st'"
    with step show "scan w a i (c # rest) st = (Completed, evs, st')" by simp
  next
    assume h: "\<not> (\<not> success \<and> 5 \<le> consecutive_errors st') \<and> long_pause_every (cfg a) \<noteq> 0"
    with step d show e: "scan w a i (c # rest) st =
            emit (evs @
                   [if long_pause_every (cfg a) dvd int i
                    then Sleep_uniform (long_pause_min (cfg a)) (long_pause_max (cfg a))
                    else Sleep_uniform (min_delay (cfg a)) (max_delay (cfg a))])
              (scan w a (Suc i) rest st')"
      by auto
    assume "shutdown_requested st'"
    then have "scan w a (Suc i) rest st' = (Completed, [], st')" by (rule scan_shutdown)
    with e show "scan w a i (c # rest) st =
                 (Completed,
                  evs @
                   [if long_pause_every (cfg a) dvd int i
                    then Sleep_uniform (long_pause_min (cfg a)) (long_pause_max (cfg a))
                    else Sleep_uniform (min_delay (cfg a)) (max_delay (cfg a))],
                  st')"
      by simp
  qed
qed

theorem delay_after_target_witness:
  "scan (scenario (\<lambda>i k. Arrives (listing [])) (\<lambda>i. False)) (args_with default_config [])
       25 [''moskva''] (initial_state\<lparr>consecutive_errors := 0\<rparr>) =
     (Completed,
      [Goto ''https://www.avito.ru/moskva/uslugi'', Flush [], Sleep_uniform 15 30],
      initial_state\<lparr>shutdown_requested := False\<rparr>)
   \<and> scan (scenario (\<lambda>i k. Arrives (listing [])) (\<lambda>i. i = 1)) (args_with default_config [])
       1 [''moskva'', ''kazan''] (initial_state\<lparr>consecutive_errors := 0\<rparr>) =
     (Completed,
      [Goto ''https://www.avito.ru/moskva/uslugi'', Flush [], Sleep_uniform 3 12],
      initial_state\<lparr>shutdown_requested := True\<rparr>)
   \<and> scan (scenario (\<lambda>i k. Raises ''timeout'') (\<lambda>i. False)) (args_with default_config [])
       5 [''kazan'', ''omsk''] (initial_state\<lparr>consecutive_errors := 4\<rparr>) =
     (Completed,
      [Goto ''https://www.avito.ru/kazan/uslugi'', Sleep_uniform 10 20,
       Goto ''https://www.avito.ru/kazan/uslugi'', Sleep_uniform 10 20,
       Goto ''https://www.avito.ru/kazan/uslugi'', Sleep_uniform 10 20],
      initial_state\<lparr>consecutive_errors := 5\<rparr>)"
proof -
  have ns: "\<not> shutdown_requested (initial_state\<lparr>consecutive_errors := n\<rparr>)" for n
    by (simp add: initial_state_def)
  from delay_after_target[OF ns empty_listing_target[of "\<lambda>i. False" 25 0], of "[]"]
  have 1: "scan (scenario (\<lambda>i k. Arrives (listing [])) (\<lambda>i. False)) (args_with default_config [])
       25 [''moskva''] (initial_state\<lparr>consecutive_errors := 0\<rparr>) =
     (Completed,
      [Goto ''https://www.avito.ru/moskva/uslugi'', Flush [], Sleep_uniform 15 30],
      initial_state\<lparr>shutdown_requested := False\<rparr>)"
    by (simp add: default_config_def)
  from delay_after_target[OF ns empty_listing_target[of "\<lambda>i. i = 1" 1 0], of "[''kazan'']"]
  have 2: "scan (scenario (\<lambda>i k. Arrives (listing [])) (\<lambda>i. i = 1)) (args_with default_config [])
       1 [''moskva'', ''kazan''] (initial_state\<lparr>consecutive_errors := 0\<rparr>) =
     (Completed,
      [Goto ''https://www.avito.ru/moskva/uslugi'', Flush [], Sleep_uniform 3 12],
      initial_state\<lparr>shutdown_requested := True\<rparr>)"
    by (simp add: default_config_def initial_state_def scan_shutdown)
  from delay_after_target[OF ns failing_target, of "[''omsk'']"]
  have 3: "scan (scenario (\<lambda>i k. Raises ''timeout'') (\<lambda>i. False)) (args_with default_config [])
       5 [''kazan'', ''omsk''] (initial_state\<lparr>consecutive_errors := 4\<rparr>) =
     (Completed,
      [Goto ''https://www.avito.ru/kazan/uslugi'', Sleep_uniform 10 20,
       Goto ''https://www.avito.ru/kazan/uslugi'', Sleep_uniform 10 20,
       Goto ''https://www.avito.ru/kazan/uslugi'', Sleep_uniform 10 20],
      initial_state\<lparr>consecutive_errors := 5\<rparr>)"
    by simp
  from 1 2 3 show ?thesis by blast
qed

lemma interrupted_run:
  "run (scenario (\<lambda>i k. Arrives (listing [])) (\<lambda>i. i = 1)) (args_with default_config [])
        0 [''moskva'', ''kazan''] initial_state =
     (Completed,
      [Launch_browser, Warm_cookies,
       Goto ''https://www.avito.ru/moskva/uslugi'', Flush [], Sleep_uniform 3 12,
       Close_browser, Flush [], Print_report []],
      initial_state\<lparr>shutdown_requested := True\<rparr>)"
proof -
  have ns: "\<not> shutdown_requested (initial_state\<lparr>consecutive_errors := 0\<rparr>)"
    by (simp add: initial_state_def)
  note p = empty_listing_target[of "\<lambda>i. i = 1" 1 0]
  have s: "scan (scenario (\<lambda>i k. Arrives (listing [])) (\<lambda>i. i = 1)) (args_with default_config [])
       1 [''moskva'', ''kazan''] (initial_state\<lparr>consecutive_errors := 0\<rparr>) =
     (Completed,
      [Goto ''https://www.avito.ru/moskva/uslugi'', Flush [], Sleep_uniform 3 12],
      initial_state\<lparr>shutdown_requested := True\<rparr>)"
    using scan_step[OF ns p, of "[''kazan'']"]
    by (simp add: delay_between_cities_def default_config_def scan_shutdown initial_state_def)
  have i: "initial_state\<lparr>consecutive_errors := 0, shutdown_requested := False\<rparr> =
      initial_state\<lparr>consecutive_errors := 0\<rparr>"
    by (simp add: initial_state_def)
  show ?thesis
    unfolding run_def
    by (simp add: i s[simplified] Let_def)
       (simp add: initial_state_def save_results_def)
qed

text \<open>
  C9 as written fails: with two targets and a Ctrl+C while the first is in progress,
  the run is stopping when the first target is done, and still sleeps 3 to 12 seconds before
  it leaves the loop; the second target is never visited.
\<close>

theorem delay_after_target_counterexample:
  "shutdown_requested
     (snd (snd (process_target (scenario (\<lambda>i k. Arrives (listing [])) (\<lambda>i. i = 1))
        (args_with default_config []) 1 ''moskva'' (initial_state\<lparr>consecutive_errors := 0\<rparr>))))
   \<and> run (scenario (\<lambda>i k. Arrives (listing [])) (\<lambda>i. i = 1)) (args_with default_config [])
        0 [''moskva'', ''kazan''] initial_state =
     (Completed,
      [Launch_browser, Warm_cookies,
       Goto ''https://www.avito.ru/moskva/uslugi'', Flush [], Sleep_uniform 3 12,
       Close_browser, Flush [], Print_report []],
      initial_state\<lparr>shutdown_requested := True\<rparr>)"
  using interrupted_run empty_listing_target[of "\<lambda>i. i = 1" 1 0] by simp

subsection \<open>The end of the run\<close>

lemma save_results_idem: "save_results rs (save_results rs files) = save_results rs files"
  by (cases rs) (auto simp: save_results_def Let_def fun_eq_iff)









subsection \<open>Incremental persistence\<close>

lemma cumulative_simps [simp]:
  "cumulative w a i [] = []"
  "cumulative w a i (c # cs) = target_records w a i c @ cumulative w a (Suc i) cs"
  by (simp_all add: cumulative_def)

lemma process_target_flushes:
  assumes "process_target w a i c st = (success, evs, st')" and "Flush rs \<in> set evs"
  shows "rs = collected_results st'"
proof (cases success)
  case True
  with assms(1) have "process_target w a i c st = (True, evs, st')" by simp
  then show ?thesis
  proof (rule process_target_success)
    fix ads pre
    assume st': "st' = st\<lparr>collected_results := collected_results st @ map (stamp w a c) ads,
               output_files := save_results (collected_results st @ map (stamp w a c) ads)
                                 (output_files st),
               consecutive_errors := 0,
               shutdown_requested := shutdown_requested st \<or> interrupted w i\<rparr>"
      and evs: "evs = pre @ [Goto (target_url a c), Flush (collected_results st @ map (stamp w a c) ads)]"
      and pre: "\<not> list_ex is_flush pre"
    from pre have "Flush rs \<notin> set pre" by (auto simp: list_ex_iff)
    with assms(2) evs have "rs = collected_results st @ map (stamp w a c) ads" by auto
    with st' show ?thesis by simp
  qed
next
  case False
  with assms(1) have "process_target w a i c st = (False, evs, st')" by simp
  from process_target_failure(4)[OF this] assms(2) show ?thesis
    by (auto simp: list_ex_iff)
qed

lemma scan_cumulative:
  "scan w a i cs st = (out, evs, st') \<Longrightarrow>
     (\<forall>rs. Flush rs \<in> set evs \<longrightarrow>
        (\<exists>k. 0 < k \<and> k \<le> length cs \<and> rs = collected_results st @ cumulative w a i (take k cs)))
     \<and> (\<exists>m \<le> length cs. collected_results st' = collected_results st @ cumulative w a i (take m cs))"
proof (induction cs arbitrary: i st out evs st')
  case Nil
  then show ?case by simp
next
  case (Cons c rest)
  show ?case
  proof (cases "shutdown_requested st")
    case True
    with Cons.prems have "evs = []" "st' = st" by (simp_all add: scan_shutdown)
    then show ?thesis by (auto intro: exI[of _ 0])
  next
    case False
    obtain success evs1 st1 where p: "process_target w a i c st = (success, evs1, st1)"
      by (cases "process_target w a i c st") auto
    note col = process_target_collected[OF p]
    have fl: "rs = collected_results st @ cumulative w a i (take 1 (c # rest))"
      if "Flush rs \<in> set evs1" for rs
      using process_target_flushes[OF p that] col by simp
    have one: "collected_results st1 = collected_results st @ cumulative w a i (take 1 (c # rest))"
      using col by simp
    note step = scan_step[OF False p, of rest]
    have here: ?thesis if "evs = evs1" "st' = st1"
    proof (intro conjI allI impI)
      fix rs assume "Flush rs \<in> set evs"
      with that fl have "rs = collected_results st @ cumulative w a i (take 1 (c # rest))" by simp
      then show "\<exists>k. 0 < k \<and> k \<le> length (c # rest)
          \<and> rs = collected_results st @ cumulative w a i (take k (c # rest))"
        by (intro exI[of _ 1]) simp
    next
      from one that show "\<exists>m \<le> length (c # rest).
          collected_results st' = collected_results st @ cumulative w a i (take m (c # rest))"
        by (intro exI[of _ 1]) simp
    qed
    show ?thesis
    proof (cases "\<not> success \<and> 5 \<le> consecutive_errors st1")
      case True
      with step Cons.prems have "evs = evs1" "st' = st1" by auto
      then show ?thesis by (rule here)
    next
      case nostop: False
      show ?thesis
      proof (cases "delay_between_cities (cfg a) i")
        case (Inl e)
        with step nostop Cons.prems have "evs = evs1" "st' = st1" by auto
        then show ?thesis by (rule here)
      next
        case (Inr d)
        with step nostop Cons.prems have
          "emit (evs1 @ [d]) (scan w a (Suc i) rest st1) = (out, evs, st')"
          by auto
        then obtain evs2 where
          r: "scan w a (Suc i) rest st1 = (out, evs2, st')" and e: "evs = (evs1 @ [d]) @ evs2"
          by (auto simp: emit_eq_iff)
        from Inr have d: "\<not> is_flush d"
          by (auto simp: delay_between_cities_def split: if_splits)
        note IH = Cons.IH[OF r]
        show ?thesis
        proof (intro conjI allI impI)
          fix rs assume "Flush rs \<in> set evs"
          with e d consider "Flush rs \<in> set evs1" | "Flush rs \<in> set evs2" by auto
          then show "\<exists>k. 0 < k \<and> k \<le> length (c # rest)
              \<and> rs = collected_results st @ cumulative w a i (take k (c # rest))"
          proof cases
            case 1
            from fl[OF 1] show ?thesis by (intro exI[of _ 1]) simp
          next
            case 2
            with IH obtain k where "0 < k" "k \<le> length rest"
              "rs = collected_results st1 @ cumulative w a (Suc i) (take k rest)"
              by blast
            with col show ?thesis by (intro exI[of _ "Suc k"]) simp
          qed
        next
          from IH obtain m where "m \<le> length rest"
            "collected_results st' = collected_results st1 @ cumulative w a (Suc i) (take m rest)"
            by blast
          with col show "\<exists>m \<le> length (c # rest).
              collected_results st' = collected_results st @ cumulative w a i (take m (c # rest))"
            by (intro exI[of _ "Suc m"]) simp
        qed
      qed
    qed
  qed
qed

lemma save_results_files:
  assumes "rs \<noteq> []"
  shows "save_results rs files (''results_'' @ key_run_ts (hd rs) @ ''.csv'') =
           Some (Csv_file fieldnames (map csv_row rs))"
    and "save_results rs files (''results_'' @ key_run_ts (hd rs) @ ''.json'') =
           Some (Json_file (map clean rs))"
  using assms by (cases rs; simp add: save_results_def Let_def)+

text \<open>
  C7 (as the code has it). A target that succeeds appends its records to the collected ones
  and calls \<open>save_results\<close> with all of them. For a non-empty list \<open>save_results\<close> replaces
  the CSV file by one row per record and the JSON file by one object per record; for an empty
  list it writes nothing. Every \<open>save_results\<close> call made in the loop over the targets passes
  exactly the records of the first \<open>k\<close> targets, for the \<open>k\<close> reached.
\<close>

theorem incremental_persistence:
  "(process_target w a i c st = (True, evs, st') \<longrightarrow>
      collected_results st' = collected_results st @ target_records w a i c
      \<and> output_files st' = save_results (collected_results st') (output_files st)
      \<and> (\<exists>pre. evs = pre @ [Goto (target_url a c), Flush (collected_results st')]))
   \<and> (rs \<noteq> [] \<longrightarrow>
        save_results rs files (''results_'' @ key_run_ts (hd rs) @ ''.csv'') =
          Some (Csv_file fieldnames (map csv_row rs))
        \<and> save_results rs files (''results_'' @ key_run_ts (hd rs) @ ''.json'') =
          Some (Json_file (map clean rs)))
   \<and> save_results [] files = files
   \<and> (scan w a j cs st2 = (out, evs2, st3) \<longrightarrow>
        (\<forall>xs. Flush xs \<in> set evs2 \<longrightarrow>
           (\<exists>k. 0 < k \<and> k \<le> length cs
                \<and> xs = collected_results st2 @ cumulative w a j (take k cs))))"
proof (intro conjI impI)
  assume p: "process_target w a i c st = (True, evs, st')"
  from process_target_collected[OF p]
  show col: "collected_results st' = collected_results st @ target_records w a i c" .
  from p show "output_files st' = save_results (collected_results st') (output_files st)"
    by (rule process_target_success) simp
  from p show "\<exists>pre. evs = pre @ [Goto (target_url a c), Flush (collected_results st')]"
    by (rule process_target_success) simp
next
  assume "rs \<noteq> []"
  then show "save_results rs files (''results_'' @ key_run_ts (hd rs) @ ''.csv'') =
          Some (Csv_file fieldnames (map csv_row rs))"
    and "save_results rs files (''results_'' @ key_run_ts (hd rs) @ ''.json'') =
          Some (Json_file (map clean rs))"
    by (rule save_results_files)+
next
  show "save_results [] files = files" by (simp add: save_results_def)
next
  assume "scan w a j cs st2 = (out, evs2, st3)"
  from scan_cumulative[OF this]
  show "\<forall>xs. Flush xs \<in> set evs2 \<longrightarrow>
           (\<exists>k. 0 < k \<and> k \<le> length cs
                \<and> xs = collected_results st2 @ cumulative w a j (take k cs))"
    by blast
qed

lemma one_listing_attempt:
  "attempt (scenario (\<lambda>i k. Arrives (listing [''phone repair''])) s) i k =
     Done [\<lparr>ad_position = Suc 0, ad_title = ''phone repair'', ad_url = ''https://www.avito.ru/item'',
            ad_is_reklama = False, seller_name = '''', seller_url = ''''\<rparr>]"
  by (simp add: listing_attempt enumerate_eq_zip extract_item_def listed_def plain_js_def
      before_query_def reklama_def)

lemma one_listing_stamp:
  "stamp (scenario v s) (args_with cf [[''repair'']]) ''moskva''
     \<lparr>ad_position = Suc 0, ad_title = ''phone repair'', ad_url = ''https://www.avito.ru/item'',
      ad_is_reklama = False, seller_name = '''', seller_url = ''''\<rparr> = sample_record"
  by (simp add: stamp_def sample_record_def is_mine_def ascii_lower_def ascii_lower_char_def)

lemma one_listing_target:
  "process_target (scenario (\<lambda>i k. Arrives (listing [''phone repair''])) (\<lambda>i. False))
      (args_with default_config [[''repair'']]) 1 ''moskva'' initial_state =
     (True,
      [Goto ''https://www.avito.ru/moskva/uslugi'', Flush [sample_record]],
      initial_state\<lparr>collected_results := [sample_record],
                     output_files := save_results [sample_record] Map.empty\<rparr>)"
  by (simp add: process_target_def one_listing_attempt one_listing_stamp default_config_def
      target_url_def numeral_3_eq_3 initial_state_def Let_def)

lemma one_listing_scan:
  "scan (scenario (\<lambda>i k. Arrives (listing [''phone repair''])) (\<lambda>i. False))
      (args_with default_config [[''repair'']]) 1 [''moskva''] initial_state =
     (Completed,
      [Goto ''https://www.avito.ru/moskva/uslugi'', Flush [sample_record], Sleep_uniform 3 12],
      initial_state\<lparr>collected_results := [sample_record],
                     output_files := save_results [sample_record] Map.empty\<rparr>)"
proof -
  have ns: "\<not> shutdown_requested initial_state"
    by (simp add: initial_state_def)
  show ?thesis
    using scan_step[OF ns one_listing_target, of "[]"]
    by (simp add: delay_between_cities_def default_config_def)
qed

theorem incremental_persistence_witness:
  "process_target (scenario (\<lambda>i k. Arrives (listing [''phone repair''])) (\<lambda>i. False))
      (args_with default_config [[''repair'']]) 1 ''moskva'' initial_state =
     (True,
      [Goto ''https://www.avito.ru/moskva/uslugi'', Flush [sample_record]],
      initial_state\<lparr>collected_results := [sample_record],
                     output_files := save_results [sample_record] Map.empty\<rparr>)
   \<and> save_results [sample_record] Map.empty ''results_20240101_120000.csv'' =
        Some (Csv_file fieldnames [csv_row sample_record])
   \<and> save_results [sample_record] Map.empty ''results_20240101_120000.json'' =
        Some (Json_file [clean sample_record])
   \<and> [sample_record] =
        target_records (scenario (\<lambda>i k. Arrives (listing [''phone repair''])) (\<lambda>i. False))
          (args_with default_config [[''repair'']]) 1 ''moskva''
   \<and> (\<exists>k. 0 < k \<and> k \<le> length [''moskva''] \<and>
         [sample_record] =
           cumulative (scenario (\<lambda>i k. Arrives (listing [''phone repair''])) (\<lambda>i. False))
             (args_with default_config [[''repair'']]) 1 (take k [''moskva'']))"
proof -
  note t = incremental_persistence[of
      "scenario (\<lambda>i k. Arrives (listing [''phone repair''])) (\<lambda>i. False)"
      "args_with default_config [[''repair'']]" 1 "''moskva''" initial_state
      "[Goto ''https://www.avito.ru/moskva/uslugi'', Flush [sample_record]]"
      "initial_state\<lparr>collected_results := [sample_record],
                     output_files := save_results [sample_record] Map.empty\<rparr>"
      "[sample_record]" Map.empty 1 "[''moskva'']" initial_state Completed
      "[Goto ''https://www.avito.ru/moskva/uslugi'', Flush [sample_record], Sleep_uniform 3 12]"
      "initial_state\<lparr>collected_results := [sample_record],
                     output_files := save_results [sample_record] Map.empty\<rparr>"]
  have ts: "key_run_ts (hd [sample_record]) = ''20240101_120000''"
    by (simp add: sample_record_def)
  have c0: "collected_results initial_state = []"
    by (simp add: initial_state_def)
  have ne: "[sample_record] \<noteq> []" by simp
  have mem: "Flush [sample_record] \<in>
      set [Goto ''https://www.avito.ru/moskva/uslugi'', Flush [sample_record], Sleep_uniform 3 12]"
    by simp
  from t one_listing_target have a: "[sample_record] =
        target_records (scenario (\<lambda>i k. Arrives (listing [''phone repair''])) (\<lambda>i. False))
          (args_with default_config [[''repair'']]) 1 ''moskva''"
    by (simp add: c0)
  from t ne have b: "save_results [sample_record] Map.empty ''results_20240101_120000.csv'' =
        Some (Csv_file fieldnames [csv_row sample_record])"
    and c: "save_results [sample_record] Map.empty ''results_20240101_120000.json'' =
        Some (Json_file [clean sample_record])"
    unfolding ts by simp_all
  from t one_listing_scan mem have d: "\<exists>k. 0 < k \<and> k \<le> length [''moskva''] \<and>
         [sample_record] =
           cumulative (scenario (\<lambda>i k. Arrives (listing [''phone repair''])) (\<lambda>i. False))
             (args_with default_config [[''repair'']]) 1 (take k [''moskva''])"
    unfolding c0 by (metis append_Nil)
  from one_listing_target a b c d show ?thesis by blast
qed

lemma empty_listing_first:
  "process_target (scenario (\<lambda>i k. Arrives (listing [])) (\<lambda>i. False))
      (args_with default_config []) 1 ''moskva'' initial_state =
     (True, [Goto ''https://www.avito.ru/moskva/uslugi'', Flush []], initial_state)"
proof -
  have "initial_state\<lparr>consecutive_errors := 0\<rparr> = initial_state"
    and "initial_state\<lparr>shutdown_requested := False\<rparr> = initial_state"
    by (simp_all add: initial_state_def)
  with empty_listing_target[of "\<lambda>i. False" 1 0] show ?thesis by simp
qed

text \<open>
  C7 as written fails for a target that succeeds while no record has been collected:
  a first target whose listing has no item succeeds, \<open>save_results\<close> is called with the
  empty list and returns before it opens a file, and the output directory holds no CSV and
  no JSON file afterwards.
\<close>

theorem incremental_persistence_counterexample:
  "process_target (scenario (\<lambda>i k. Arrives (listing [])) (\<lambda>i. False))
      (args_with default_config []) 1 ''moskva'' initial_state =
     (True, [Goto ''https://www.avito.ru/moskva/uslugi'', Flush []], initial_state)
   \<and> output_files initial_state = Map.empty"
  using empty_listing_first by (simp add: initial_state_def)

subsection \<open>A run without keyword rules\<close>

lemma run_collected:
  "run w a skip cities st0 = (out, evs, st') \<Longrightarrow>
     \<exists>m. collected_results st' =
       collected_results st0 @
         cumulative w a 1 (take m (if 0 < skip then drop (nat skip) cities else cities))"
proof -
  assume r: "run w a skip cities st0 = (out, evs, st')"
  define cs where "cs = (if 0 < skip then drop (nat skip) cities else cities)"
  define st1 where "st1 = st0\<lparr>consecutive_errors := 0,
      shutdown_requested := shutdown_requested st0 \<or> interrupted w 0\<rparr>"
  obtain out1 evs1 st2 where s: "scan w a 1 cs st1 = (out1, evs1, st2)"
    by (cases "scan w a 1 cs st1") auto
  from scan_cumulative[OF s] obtain m where
    m: "collected_results st2 = collected_results st1 @ cumulative w a 1 (take m cs)"
    by blast
  have c1: "collected_results st1 = collected_results st0"
    by (simp add: st1_def)
  have "collected_results st' = collected_results st0
      \<or> collected_results st' = collected_results st2"
    using r s c1
    by (cases out1)
       (auto simp: run_def cs_def[symmetric] st1_def[symmetric] Let_def split: if_splits)
  then show ?thesis
  proof
    assume "collected_results st' = collected_results st0"
    then have "collected_results st' = collected_results st0 @ cumulative w a 1 (take 0 cs)"
      by simp
    then show ?thesis unfolding cs_def by blast
  next
    assume "collected_results st' = collected_results st2"
    with m c1 have "collected_results st' = collected_results st0 @ cumulative w a 1 (take m cs)"
      by simp
    then show ?thesis unfolding cs_def by blast
  qed
qed

lemma stamp_no_rules: "keyword_rules a = [] \<Longrightarrow> \<not> key_is_mine (stamp w a c x)"
  by (simp add: stamp_def is_mine_def)

lemma cumulative_no_rules:
  "keyword_rules a = [] \<Longrightarrow> r \<in> set (cumulative w a i cs) \<Longrightarrow> \<not> key_is_mine r"
  by (induction cs arbitrary: i)
     (auto simp: target_records_def stamp_no_rules split: option.splits)

text \<open>
  C10. With no keyword rule the matcher is false for every title; so every record the run
  stamps is marked as not matching, and after a run that started with no matching record
  among the collected ones there is still none.
\<close>

theorem no_rules_no_match:
  "\<not> is_mine lower title []
   \<and> (keyword_rules a = [] \<longrightarrow> \<not> key_is_mine (stamp w a c x))
   \<and> (keyword_rules a = [] \<and> run w a skip cities st0 = (out, evs, st')
        \<and> (\<forall>r \<in> set (collected_results st0). \<not> key_is_mine r) \<longrightarrow>
        (\<forall>r \<in> set (collected_results st'). \<not> key_is_mine r))"
proof (intro conjI impI ballI)
  show "\<not> is_mine lower title []" by (simp add: is_mine_def)
next
  assume "keyword_rules a = []"
  then show "\<not> key_is_mine (stamp w a c x)" by (rule stamp_no_rules)
next
  fix r
  assume h: "keyword_rules a = [] \<and> run w a skip cities st0 = (out, evs, st')
        \<and> (\<forall>r \<in> set (collected_results st0). \<not> key_is_mine r)"
    and r: "r \<in> set (collected_results st')"
  from h run_collected obtain m where
    "collected_results st' = collected_results st0 @
       cumulative w a 1 (take m (if 0 < skip then drop (nat skip) cities else cities))"
    by blast
  with r consider "r \<in> set (collected_results st0)"
    | "r \<in> set (cumulative w a 1 (take m (if 0 < skip then drop (nat skip) cities else cities)))"
    by auto
  then show "\<not> key_is_mine r"
  proof cases
    case 1
    with h show ?thesis by blast
  next
    case 2
    with h cumulative_no_rules show ?thesis by blast
  qed
qed

lemma no_rules_target:
  "process_target (scenario (\<lambda>i k. Arrives (listing [''phone repair''])) (\<lambda>i. False))
      (args_with default_config []) 1 ''moskva'' (initial_state\<lparr>consecutive_errors := 0\<rparr>) =
     (True,
      [Goto ''https://www.avito.ru/moskva/uslugi'', Flush [sample_record\<lparr>key_is_mine := False\<rparr>]],
      initial_state\<lparr>collected_results := [sample_record\<lparr>key_is_mine := False\<rparr>],
                     output_files := save_results [sample_record\<lparr>key_is_mine := False\<rparr>] Map.empty\<rparr>)"
  by (simp add: process_target_def one_listing_attempt default_config_def stamp_def is_mine_def
      sample_record_def target_url_def numeral_3_eq_3 initial_state_def Let_def)

lemma no_rules_run:
  "run (scenario (\<lambda>i k. Arrives (listing [''phone repair''])) (\<lambda>i. False))
      (args_with default_config []) 0 [''moskva''] initial_state =
     (Completed,
      [Launch_browser, Warm_cookies,
       Goto ''https://www.avito.ru/moskva/uslugi'', Flush [sample_record\<lparr>key_is_mine := False\<rparr>],
       Sleep_uniform 3 12, Close_browser,
       Flush [sample_record\<lparr>key_is_mine := False\<rparr>],
       Print_report [sample_record\<lparr>key_is_mine := False\<rparr>]],
      initial_state\<lparr>collected_results := [sample_record\<lparr>key_is_mine := False\<rparr>],
                     output_files := save_results [sample_record\<lparr>key_is_mine := False\<rparr>] Map.empty\<rparr>)"
proof -
  have ns: "\<not> shutdown_requested (initial_state\<lparr>consecutive_errors := 0\<rparr>)"
    by (simp add: initial_state_def)
  have s: "scan (scenario (\<lambda>i k. Arrives (listing [''phone repair''])) (\<lambda>i. False))
      (args_with default_config []) 1 [''moskva''] (initial_state\<lparr>consecutive_errors := 0\<rparr>) =
     (Completed,
      [Goto ''https://www.avito.ru/moskva/uslugi'', Flush [sample_record\<lparr>key_is_mine := False\<rparr>],
       Sleep_uniform 3 12],
      initial_state\<lparr>collected_results := [sample_record\<lparr>key_is_mine := False\<rparr>],
                     output_files := save_results [sample_record\<lparr>key_is_mine := False\<rparr>] Map.empty\<rparr>)"
    using scan_step[OF ns no_rules_target, of "[]"]
    by (simp add: delay_between_cities_def default_config_def)
  have i: "initial_state\<lparr>consecutive_errors := 0, shutdown_requested := False\<rparr> =
      initial_state\<lparr>consecutive_errors := 0\<rparr>"
    by (simp add: initial_state_def)
  show ?thesis
    unfolding run_def
    by (simp add: i s[simplified] Let_def save_results_idem)
qed

theorem no_rules_no_match_witness:
  "run (scenario (\<lambda>i k. Arrives (listing [''phone repair''])) (\<lambda>i. False))
      (args_with default_config []) 0 [''moskva''] initial_state =
     (Completed,
      [Launch_browser, Warm_cookies,
       Goto ''https://www.avito.ru/moskva/uslugi'', Flush [sample_record\<lparr>key_is_mine := False\<rparr>],
       Sleep_uniform 3 12, Close_browser,
       Flush [sample_record\<lparr>key_is_mine := False\<rparr>],
       Print_report [sample_record\<lparr>key_is_mine := False\<rparr>]],
      initial_state\<lparr>collected_results := [sample_record\<lparr>key_is_mine := False\<rparr>],
                     output_files := save_results [sample_record\<lparr>key_is_mine := False\<rparr>] Map.empty\<rparr>)
   \<and> keyword_rules (args_with default_config []) = []
   \<and> collected_results initial_state = []
   \<and> \<not> key_is_mine (sample_record\<lparr>key_is_mine := False\<rparr>)
   \<and> \<not> is_mine ascii_lower ''phone repair'' []"
proof -
  note t = no_rules_no_match[of ascii_lower "''phone repair''" "args_with default_config []"
      "scenario (\<lambda>i k. Arrives (listing [''phone repair''])) (\<lambda>i. False)" "''moskva''" _
      0 "[''moskva'']" initial_state Completed
      "[Launch_browser, Warm_cookies,
       Goto ''https://www.avito.ru/moskva/uslugi'', Flush [sample_record\<lparr>key_is_mine := False\<rparr>],
       Sleep_uniform 3 12, Close_browser,
       Flush [sample_record\<lparr>key_is_mine := False\<rparr>],
       Print_report [sample_record\<lparr>key_is_mine := False\<rparr>]]"
      "initial_state\<lparr>collected_results := [sample_record\<lparr>key_is_mine := False\<rparr>],
                     output_files := save_results [sample_record\<lparr>key_is_mine := False\<rparr>] Map.empty\<rparr>"]
  have k: "keyword_rules (args_with default_config []) = []" by simp
  have c0: "collected_results initial_state = []" by (simp add: initial_state_def)
  from t k c0 no_rules_run
  have "\<forall>r \<in> set [sample_record\<lparr>key_is_mine := False\<rparr>]. \<not> key_is_mine r"
    by simp
  then have a: "\<not> key_is_mine (sample_record\<lparr>key_is_mine := False\<rparr>)" by simp
  from t have b: "\<not> is_mine ascii_lower ''phone repair'' []" by blast
  from no_rules_run k c0 a b show ?thesis by blast
qed

end
